theory Spec2Isabelle
  imports Main "HOL-Library.Word" "HOL-Library.AList" "HOL-Library.Multiset"
begin

section \<open>The one-time cipher of otc.py\<close>

text \<open>
  A byte is an 8-bit word; Python's unbounded integers (positions, cursors) are naturals
  where the code keeps them non-negative and integers where a ciphertext line may hold
  any number.
\<close>

type_synonym byte = "8 word"

subsection \<open>Exceptions and binary streams\<close>

text \<open>
  The exceptions the cipher code can raise. \<open>MapError\<close> carries its message; the
  others are Python's own.
\<close>

datatype error = MapError string | KeyError byte | StopIteration | OSError | ValueError | TypeError

text \<open>
  A binary file object opened for reading: its bytes and the read offset. \<open>read(1)\<close>
  gives a byte string of length one, or the empty one at or after the end; \<open>read()\<close>
  gives everything from the offset on.
\<close>

record stream =
  content :: "byte list"
  pos :: nat

definition open_rb :: "byte list \<Rightarrow> stream" where
  "open_rb bs = \<lparr>content = bs, pos = 0\<rparr>"

definition read1 :: "stream \<Rightarrow> byte list \<times> stream" where
  "read1 fp =
     (let got = take 1 (drop (pos fp) (content fp))
      in (got, fp\<lparr>pos := pos fp + length got\<rparr>))"

definition read_all :: "stream \<Rightarrow> byte list \<times> stream" where
  "read_all fp =
     (let got = drop (pos fp) (content fp)
      in (got, fp\<lparr>pos := pos fp + length got\<rparr>))"

text \<open>
  \<open>seek(offset)\<close> from the start of the file. An offset that does not fit the signed
  64-bit \<open>off_t\<close> raises \<open>ValueError\<close> before the file is touched. Of the others the
  operating system refuses the negative ones and those above the largest offset the file
  system gives a file, \<open>max_offset\<close>, with \<open>OSError\<close>; every other offset is
  accepted, also one past the end of the file. \<open>max_offset\<close> belongs to the machine
  the script runs on and is a parameter of everything that seeks.
\<close>

definition seek :: "nat \<Rightarrow> stream \<Rightarrow> int \<Rightarrow> error + stream" where
  "seek max_offset fp offset =
     (if offset < - (2 ^ 63) \<or> 2 ^ 63 \<le> offset then Inl ValueError
      else if offset < 0 \<or> int max_offset < offset then Inl OSError
      else Inr (fp\<lparr>pos := nat offset\<rparr>))"

subsection \<open>EncryptMap.TrackedList\<close>

record TrackedList =
  index :: nat
  tlist :: "nat list"

definition TrackedList_init :: "nat \<Rightarrow> TrackedList" where
  "TrackedList_init first = \<lparr>index = 0, tlist = [first]\<rparr>"

definition append_tl :: "TrackedList \<Rightarrow> nat \<Rightarrow> TrackedList" where
  "append_tl t elt = t\<lparr>tlist := tlist t @ [elt]\<rparr>"

definition reset :: "TrackedList \<Rightarrow> TrackedList" where
  "reset t = t\<lparr>index := 0\<rparr>"

text \<open>
  \<open>__next__\<close>: the guard is \<open>self.index > len(self.list) - 1\<close> on Python integers, so
  the subtraction is an integer one (an empty list gives \<open>-1\<close>).
\<close>

definition next_tl :: "TrackedList \<Rightarrow> (error + nat) \<times> TrackedList" where
  "next_tl t =
     (if int (index t) > int (length (tlist t)) - 1 then (Inl StopIteration, t)
      else (Inr (tlist t ! index t), t\<lparr>index := index t + 1\<rparr>))"

subsection \<open>random.shuffle\<close>

text \<open>
  \<open>random.shuffle\<close> is the standard library's in-place Fisher-Yates loop
  \<^verbatim>\<open>for i in reversed(range(1, len(x))): j = randbelow(i + 1); x[i], x[j] = x[j], x[i]\<close>.
  The generator is an explicit sequence of draws \<open>rnd\<close> with a counter \<open>c\<close> of the draws
  used so far; \<open>randbelow(n)\<close> is the next draw reduced below \<open>n\<close>, so every outcome of
  the library's generator is the behaviour of some \<open>rnd\<close>.
\<close>

fun shuffle_loop :: "(nat \<Rightarrow> nat) \<Rightarrow> nat \<Rightarrow> nat \<Rightarrow> nat list \<Rightarrow> nat list \<times> nat" where
  "shuffle_loop rnd c 0 x = (x, c)"
| "shuffle_loop rnd c (Suc i) x =
     (let j = rnd c mod (Suc i + 1)
      in shuffle_loop rnd (c + 1) i (x[Suc i := x ! j, j := x ! Suc i]))"

definition random_shuffle :: "(nat \<Rightarrow> nat) \<Rightarrow> nat \<Rightarrow> nat list \<Rightarrow> nat list \<times> nat" where
  "random_shuffle rnd c x = shuffle_loop rnd c (length x - 1) x"

subsection \<open>EncryptMap\<close>

text \<open>
  The dictionary \<open>self.map\<close> is an association list in insertion order, which is the
  order Python iterates it in; \<open>AList.update\<close> replaces the value of a present key in
  place and puts a new key at the end.
\<close>

type_synonym tracked_dict = "(byte \<times> TrackedList) list"

record EncryptMap =
  map_fp :: stream
  strict :: bool
  emap :: tracked_dict

text \<open>The scan of \<open>__init__\<close>: one pass over the bytes read, counting positions.\<close>

fun init_scan :: "byte list \<Rightarrow> nat \<Rightarrow> tracked_dict \<Rightarrow> tracked_dict" where
  "init_scan [] idx d = d"
| "init_scan (b # bs) idx d =
     init_scan bs (idx + 1)
       (case map_of d b of
          Some t \<Rightarrow> AList.update b (append_tl t idx) d
        | None \<Rightarrow> AList.update b (TrackedList_init idx) d)"

definition verify :: "EncryptMap \<Rightarrow> error + unit" where
  "verify em = (if length (emap em) \<noteq> 256 then Inl (MapError ''Gaps in map file.'') else Inr ())"

fun shuffle_dict :: "(nat \<Rightarrow> nat) \<Rightarrow> nat \<Rightarrow> tracked_dict \<Rightarrow> tracked_dict \<times> nat" where
  "shuffle_dict rnd c [] = ([], c)"
| "shuffle_dict rnd c ((k, t) # d) =
     (let (x, c1) = random_shuffle rnd c (tlist t);
          (d', c2) = shuffle_dict rnd c1 d
      in ((k, t\<lparr>tlist := x\<rparr>) # d', c2))"

definition shuffle :: "(nat \<Rightarrow> nat) \<Rightarrow> nat \<Rightarrow> EncryptMap \<Rightarrow> EncryptMap \<times> nat" where
  "shuffle rnd c em = (let (d, c') = shuffle_dict rnd c (emap em) in (em\<lparr>emap := d\<rparr>, c'))"

text \<open>
  \<open>__init__\<close> returns the object or the exception of \<open>verify\<close>, and in both cases the
  counter of the random draws, which outlives an exception.
\<close>

definition EncryptMap_init ::
  "(nat \<Rightarrow> nat) \<Rightarrow> nat \<Rightarrow> stream \<Rightarrow> bool \<Rightarrow> (error + EncryptMap) \<times> nat" where
  "EncryptMap_init rnd c fp strict_flag =
     (let (bytes_read, fp') = read_all fp;
          em = \<lparr>map_fp = fp', strict = strict_flag, emap = init_scan bytes_read 0 []\<rparr>
      in case verify em of
           Inl e \<Rightarrow> (Inl e, c)
         | Inr _ \<Rightarrow> (let (em', c') = shuffle rnd c em in (Inr em', c')))"

text \<open>
  \<open>encode\<close>. A missing key raises \<open>KeyError\<close>, which neither handler catches;
  \<open>__next__\<close> never raises \<open>IndexError\<close>, so that handler has no branch here. A
  \<open>StopIteration\<close> raised again after the reset leaves the handler uncaught.
\<close>

definition store_tl :: "EncryptMap \<Rightarrow> byte \<Rightarrow> TrackedList \<Rightarrow> EncryptMap" where
  "store_tl em b t = em\<lparr>emap := AList.update b t (emap em)\<rparr>"

definition encode :: "EncryptMap \<Rightarrow> byte \<Rightarrow> (error + nat) \<times> EncryptMap" where
  "encode em b =
     (case map_of (emap em) b of
        None \<Rightarrow> (Inl (KeyError b), em)
      | Some t \<Rightarrow>
          (case next_tl t of
             (Inr v, t') \<Rightarrow> (Inr v, store_tl em b t')
           | (Inl e, t') \<Rightarrow>
               if strict em then (Inl (MapError ''Map file not complex enough.''), em)
               else (case next_tl (reset t') of
                       (r, t'') \<Rightarrow> (r, store_tl em b t''))))"

subsection \<open>find_next_byte\<close>

text \<open>
  The two \<open>while\<close> loops. Each reads one byte per turn; the first stops at a match or at
  the end of the stream, the second also once \<open>new_index\<close> has reached \<open>index\<close>.
\<close>

function scan_first :: "stream \<Rightarrow> byte list \<Rightarrow> byte list \<Rightarrow> nat \<Rightarrow> byte list \<times> nat \<times> stream" where
  "scan_first fp target_byte current_byte new_index =
     (if length current_byte = 1 \<and> current_byte \<noteq> target_byte
      then scan_first (snd (read1 fp)) target_byte (fst (read1 fp)) (new_index + 1)
      else (current_byte, new_index, fp))"
  by pat_completeness auto
termination
  by (relation "measure (\<lambda>(fp, t, cur, n).
        (length (content fp) - pos fp) + (if length cur = 1 then 1 else 0))")
     (auto simp: read1_def Let_def)

function scan_wrap ::
  "stream \<Rightarrow> byte list \<Rightarrow> nat \<Rightarrow> byte list \<Rightarrow> nat \<Rightarrow> byte list \<times> nat \<times> stream" where
  "scan_wrap fp target_byte idx current_byte new_index =
     (if length current_byte = 1 \<and> new_index < idx \<and> current_byte \<noteq> target_byte
      then scan_wrap (snd (read1 fp)) target_byte idx (fst (read1 fp)) (new_index + 1)
      else (current_byte, new_index, fp))"
  by pat_completeness auto
termination
  by (relation "measure (\<lambda>(fp, t, idx, cur, n). idx - n)") auto

text \<open>
  \<open>find_next_byte\<close> reads from wherever the stream stands: it never seeks to \<open>index\<close>.
  Falling off the end of the \<open>if\<close>/\<open>elif\<close> returns Python's \<open>None\<close>.
\<close>

definition find_next_byte ::
  "nat \<Rightarrow> stream \<Rightarrow> byte list \<Rightarrow> nat \<Rightarrow> (error + nat option) \<times> stream" where
  "find_next_byte max_offset fp target_byte idx =
     (let (cur0, fp1) = read1 fp;
          (cur1, new_index, fp2) = scan_first fp1 target_byte cur0 idx
      in if cur1 = target_byte then (Inr (Some new_index), fp2)
         else if length cur1 \<noteq> 1 then
           (case seek max_offset fp2 0 of
              Inl e \<Rightarrow> (Inl e, fp2)
            | Inr fp3 \<Rightarrow>
                (let (cur2, fp4) = read1 fp3;
                     (cur3, new_index', fp5) = scan_wrap fp4 target_byte idx cur2 0
                 in if cur3 = target_byte then (Inr (Some new_index'), fp5)
                    else (Inl (MapError ''Gaps in map file.''), fp5)))
         else (Inr None, fp2))"

subsection \<open>The main program: encrypting\<close>

text \<open>
  How a run ends: it reaches the end of the script, calls \<open>exit\<close> with a status, or dies
  on an uncaught exception. What was written to the output before stays written: the
  script never removes or truncates its output.
\<close>

datatype outcome = Finished | Exited nat | Uncaught error

text \<open>
  The plaintext is the list of bytes that \<open>input_fp.read(1)\<close> delivers one at a time;
  the output is the list of numbers written, one per line.
\<close>

fun encrypt_loop :: "EncryptMap \<Rightarrow> byte list \<Rightarrow> nat list \<Rightarrow> outcome \<times> nat list \<times> EncryptMap" where
  "encrypt_loop map_obj [] out = (Finished, out, map_obj)"
| "encrypt_loop map_obj (b # bs) out =
     (case encode map_obj b of
        (Inr idx, map_obj') \<Rightarrow> encrypt_loop map_obj' bs (out @ [idx])
      | (Inl (MapError msg), map_obj') \<Rightarrow> (Exited 1, out, map_obj')
      | (Inl e, map_obj') \<Rightarrow> (Uncaught e, out, map_obj'))"

definition encrypt_in_memory ::
  "(nat \<Rightarrow> nat) \<Rightarrow> nat \<Rightarrow> bool \<Rightarrow> byte list \<Rightarrow> byte list \<Rightarrow> outcome \<times> nat list" where
  "encrypt_in_memory rnd c strict_flag map_bytes plaintext =
     (case fst (EncryptMap_init rnd c (open_rb map_bytes) strict_flag) of
        Inl e \<Rightarrow> (Uncaught e, [])
      | Inr map_obj \<Rightarrow>
          (case encrypt_loop map_obj plaintext [] of (r, out, map_obj') \<Rightarrow> (r, out)))"

fun encrypt_streaming_loop ::
  "nat \<Rightarrow> stream \<Rightarrow> byte list \<Rightarrow> nat \<Rightarrow> nat list \<Rightarrow> outcome \<times> nat list \<times> stream" where
  "encrypt_streaming_loop max_offset fp [] map_index out = (Finished, out, fp)"
| "encrypt_streaming_loop max_offset fp (b # bs) map_index out =
     (case find_next_byte max_offset fp [b] map_index of
        (Inr (Some i), fp') \<Rightarrow> encrypt_streaming_loop max_offset fp' bs i (out @ [i])
      | (Inr None, fp') \<Rightarrow> (Uncaught TypeError, out, fp')
      | (Inl e, fp') \<Rightarrow> (Uncaught e, out, fp'))"

definition encrypt_streaming :: "nat \<Rightarrow> byte list \<Rightarrow> byte list \<Rightarrow> outcome \<times> nat list" where
  "encrypt_streaming max_offset map_bytes plaintext =
     (case encrypt_streaming_loop max_offset (open_rb map_bytes) plaintext 0 [] of
        (r, out, fp) \<Rightarrow> (r, out))"

subsection \<open>The main program: decrypting\<close>

text \<open>
  A ciphertext line is taken as the integer \<open>int(line)\<close> gives; a line that \<open>int\<close>
  rejects is outside the model. The in-memory decoder
  writes the slice \<open>map_bytes[index : index + 1]\<close>; a slice clamps its bounds to the
  sequence and never raises.
\<close>

definition slice_bound :: "nat \<Rightarrow> int \<Rightarrow> nat" where
  "slice_bound n i =
     (if i < 0 then (if i + int n < 0 then 0 else nat (i + int n))
      else if int n \<le> i then n else nat i)"

definition slice :: "'a list \<Rightarrow> int \<Rightarrow> int \<Rightarrow> 'a list" where
  "slice xs start stop =
     (let s = slice_bound (length xs) start; e = slice_bound (length xs) stop
      in take (e - s) (drop s xs))"

fun decrypt_in_memory_loop :: "byte list \<Rightarrow> int list \<Rightarrow> byte list \<Rightarrow> outcome \<times> byte list" where
  "decrypt_in_memory_loop map_bytes [] out = (Finished, out)"
| "decrypt_in_memory_loop map_bytes (idx # ls) out =
     decrypt_in_memory_loop map_bytes ls (out @ slice map_bytes idx (idx + 1))"

definition decrypt_in_memory :: "byte list \<Rightarrow> int list \<Rightarrow> outcome \<times> byte list" where
  "decrypt_in_memory m ls = decrypt_in_memory_loop (fst (read_all (open_rb m))) ls []"

fun decrypt_streaming_loop ::
  "nat \<Rightarrow> stream \<Rightarrow> int list \<Rightarrow> byte list \<Rightarrow> outcome \<times> byte list" where
  "decrypt_streaming_loop max_offset fp [] out = (Finished, out)"
| "decrypt_streaming_loop max_offset fp (l # ls) out =
     (case seek max_offset fp l of
        Inl e \<Rightarrow> (Uncaught e, out)
      | Inr fp' \<Rightarrow>
          decrypt_streaming_loop max_offset (snd (read1 fp')) ls (out @ fst (read1 fp')))"

definition decrypt_streaming :: "nat \<Rightarrow> byte list \<Rightarrow> int list \<Rightarrow> outcome \<times> byte list" where
  "decrypt_streaming max_offset m ls = decrypt_streaming_loop max_offset (open_rb m) ls []"

section \<open>Notions used in the proofs\<close>

text \<open>
  The positions of a byte value in the Map in ascending order, counted from \<open>idx\<close>:
  what the scan of \<open>__init__\<close> collects for that value.
\<close>

fun positions_from :: "byte list \<Rightarrow> nat \<Rightarrow> byte \<Rightarrow> nat list" where
  "positions_from [] idx b = []"
| "positions_from (x # xs) idx b = (if x = b then [idx] else []) @ positions_from xs (idx + 1) b"

definition positions :: "byte list \<Rightarrow> byte \<Rightarrow> nat list" where
  "positions m b = positions_from m 0 b"

text \<open>What the scan leaves in the dictionary for one key.\<close>

definition extend_entry :: "TrackedList option \<Rightarrow> nat list \<Rightarrow> TrackedList option" where
  "extend_entry e ps =
     (case e of
        Some t \<Rightarrow> Some (t\<lparr>tlist := tlist t @ ps\<rparr>)
      | None \<Rightarrow> (if ps = [] then None else Some \<lparr>index = 0, tlist = ps\<rparr>))"

text \<open>
  The invariant of an object built from the Map \<open>m\<close>: every byte value has an entry, and
  the entry lists exactly the positions of that value in \<open>m\<close>, in some order.
\<close>

definition indexes_map :: "byte list \<Rightarrow> EncryptMap \<Rightarrow> bool" where
  "indexes_map m em \<longleftrightarrow>
     (\<forall>b. \<exists>t. map_of (emap em) b = Some t \<and> mset (tlist t) = mset (positions m b))"

definition cursor :: "EncryptMap \<Rightarrow> byte \<Rightarrow> nat" where
  "cursor em b = (case map_of (emap em) b of Some t \<Rightarrow> index t | None \<Rightarrow> 0)"

text \<open>The positions a strict run has not handed out yet.\<close>

definition unused :: "EncryptMap \<Rightarrow> nat set" where
  "unused em = {p. \<exists>b t. map_of (emap em) b = Some t \<and> p \<in> set (drop (index t) (tlist t))}"

text \<open>A smallest Map without gaps: each byte value once, in ascending order.\<close>

definition all_bytes :: "byte list" where
  "all_bytes = map of_nat [0..<256]"

text \<open>
  Small objects for running single calls: one list of three positions, and two objects
  whose cursor for \<open>0x41\<close> is past the end of its list.
\<close>

definition three_positions :: EncryptMap where
  "three_positions =
     \<lparr>map_fp = open_rb [0x41, 0x41, 0x41], strict = True,
      emap = [(0x41, \<lparr>index = 0, tlist = [0, 1, 2]\<rparr>)]\<rparr>"

definition used_up :: EncryptMap where
  "used_up =
     \<lparr>map_fp = open_rb [0x41, 0x42], strict = True,
      emap = [(0x41, \<lparr>index = 1, tlist = [0]\<rparr>), (0x42, \<lparr>index = 0, tlist = [1]\<rparr>)]\<rparr>"

definition used_up_reuse :: EncryptMap where
  "used_up_reuse =
     \<lparr>map_fp = open_rb [0x41, 0x42, 0x41], strict = False,
      emap = [(0x41, \<lparr>index = 2, tlist = [2, 0]\<rparr>), (0x42, \<lparr>index = 0, tlist = [1]\<rparr>)]\<rparr>"

section \<open>Lemmas\<close>

lemma set_positions_from:
  "set (positions_from xs idx b) = {idx + i | i. i < length xs \<and> xs ! i = b}"
proof (induction xs arbitrary: idx)
  case Nil
  then show ?case by simp
next
  case (Cons x xs)
  have "{idx + i | i. i < length (x # xs) \<and> (x # xs) ! i = b} =
        (if x = b then {idx} else {}) \<union> {Suc idx + i | i. i < length xs \<and> xs ! i = b}"
    (is "?L = ?R")
  proof (intro set_eqI iffI)
    fix p assume "p \<in> ?L"
    then obtain i where i: "p = idx + i" "i < length (x # xs)" "(x # xs) ! i = b" by blast
    show "p \<in> ?R"
    proof (cases i)
      case 0
      with i show ?thesis by simp
    next
      case (Suc j)
      with i have "p = Suc idx + j" "j < length xs" "xs ! j = b" by simp_all
      then show ?thesis by blast
    qed
  next
    fix p assume "p \<in> ?R"
    then consider "x = b" "p = idx" | j where "p = Suc idx + j" "j < length xs" "xs ! j = b"
      by (auto split: if_splits)
    then show "p \<in> ?L"
    proof cases
      case 1
      then have "p = idx + 0 \<and> 0 < length (x # xs) \<and> (x # xs) ! 0 = b" by simp
      then show ?thesis by blast
    next
      case 2
      then have "p = idx + Suc j \<and> Suc j < length (x # xs) \<and> (x # xs) ! Suc j = b" by simp
      then show ?thesis by blast
    qed
  qed
  with Cons show ?case by simp
qed

lemma positions_from_ge: "p \<in> set (positions_from xs idx b) \<Longrightarrow> idx \<le> p"
  by (auto simp: set_positions_from)

lemma distinct_positions_from: "distinct (positions_from xs idx b)"
proof (induction xs arbitrary: idx)
  case Nil
  then show ?case by simp
next
  case (Cons x xs)
  have "idx \<notin> set (positions_from xs (Suc idx) b)"
    using positions_from_ge [of idx xs "Suc idx" b] by auto
  with Cons show ?case by simp
qed

lemma length_positions_from: "length (positions_from xs idx b) = count_list xs b"
  by (induction xs arbitrary: idx) auto

lemma set_positions: "set (positions m b) = {p. p < length m \<and> m ! p = b}"
  by (simp add: positions_def set_positions_from)

lemma distinct_positions: "distinct (positions m b)"
  by (simp add: positions_def distinct_positions_from)

lemma length_positions: "length (positions m b) = count_list m b"
  by (simp add: positions_def length_positions_from)

lemma positions_empty_iff: "positions m b = [] \<longleftrightarrow> b \<notin> set m"
proof -
  have "positions m b = [] \<longleftrightarrow> set (positions m b) = {}" by simp
  also have "\<dots> \<longleftrightarrow> b \<notin> set m" by (auto simp: set_positions in_set_conv_nth)
  finally show ?thesis .
qed

lemma map_of_init_scan:
  "map_of (init_scan bs idx d) b = extend_entry (map_of d b) (positions_from bs idx b)"
proof (induction bs arbitrary: idx d)
  case Nil
  then show ?case by (simp add: extend_entry_def split: option.splits)
next
  case (Cons x xs)
  show ?case
    by (simp add: Cons.IH update_conv' extend_entry_def append_tl_def TrackedList_init_def
        split: option.splits)
qed

lemma distinct_keys_init_scan:
  "distinct (map fst d) \<Longrightarrow> distinct (map fst (init_scan bs idx d))"
  by (induction bs arbitrary: idx d) (auto simp: distinct_update split: option.splits)

lemma map_of_init_scan_empty:
  "map_of (init_scan m 0 []) b =
     (if b \<in> set m then Some \<lparr>index = 0, tlist = positions m b\<rparr> else None)"
  by (simp add: map_of_init_scan extend_entry_def positions_def [symmetric] positions_empty_iff)

lemma keys_init_scan: "fst ` set (init_scan m 0 []) = set m"
proof -
  have "fst ` set (init_scan m 0 []) = dom (map_of (init_scan m 0 []))"
    by (simp add: dom_map_of_conv_image_fst)
  also have "\<dots> = set m"
    by (auto simp: map_of_init_scan_empty dom_def)
  finally show ?thesis .
qed

lemma length_init_scan: "length (init_scan m 0 []) = card (set m)"
proof -
  have d: "distinct (map fst (init_scan m 0 []))"
    by (rule distinct_keys_init_scan) simp
  have "length (init_scan m 0 []) = length (map fst (init_scan m 0 []))" by simp
  also have "\<dots> = card (set (map fst (init_scan m 0 [])))"
    using d by (simp only: distinct_card)
  also have "\<dots> = card (set m)" by (simp add: keys_init_scan)
  finally show ?thesis .
qed

lemma card_bytes: "card (UNIV :: byte set) = 256"
  by (simp add: card_word)

lemma all_bytes_iff: "card (set (m :: byte list)) = 256 \<longleftrightarrow> set m = UNIV"
proof
  assume "card (set m) = 256"
  then have "card (set m) = card (UNIV :: byte set)" by (simp add: card_bytes)
  then show "set m = UNIV" by (metis card_subset_eq finite subset_UNIV)
next
  assume "set m = UNIV"
  then show "card (set m) = 256" by (simp add: card_bytes)
qed

lemma verify_init_scan:
  "verify \<lparr>map_fp = fp, strict = s, emap = init_scan m 0 []\<rparr> =
     (if set m = UNIV then Inr () else Inl (MapError ''Gaps in map file.''))"
  by (simp add: verify_def length_init_scan all_bytes_iff)

lemma shuffle_loop_mset:
  "i < length x \<Longrightarrow> mset (fst (shuffle_loop rnd c i x)) = mset x"
proof (induction i arbitrary: c x)
  case 0
  then show ?case by simp
next
  case (Suc i)
  let ?j = "rnd c mod (Suc i + 1)"
  let ?x' = "x[Suc i := x ! ?j, ?j := x ! Suc i]"
  have "?j < Suc i + 1" by simp
  then have j: "?j < length x" using Suc.prems by linarith
  have "mset ?x' = mset x" using mset_swap [OF j Suc.prems] by simp
  moreover have "i < length ?x'" using Suc.prems by simp
  ultimately show ?case using Suc.IH [of ?x' "c + 1"] by (simp add: Let_def)
qed

lemma random_shuffle_mset: "mset (fst (random_shuffle rnd c x)) = mset x"
proof (cases x)
  case Nil
  then show ?thesis by (simp add: random_shuffle_def)
next
  case (Cons a as)
  then show ?thesis by (simp add: random_shuffle_def shuffle_loop_mset)
qed

lemma shuffle_dict_Some:
  "map_of d b = Some t \<Longrightarrow>
   \<exists>x. map_of (fst (shuffle_dict rnd c d)) b = Some (t\<lparr>tlist := x\<rparr>) \<and> mset x = mset (tlist t)"
proof (induction d arbitrary: c)
  case Nil
  then show ?case by simp
next
  case (Cons e d)
  obtain k u where e: "e = (k, u)" by (cases e)
  show ?case
  proof (cases "k = b")
    case True
    with Cons.prems e have "u = t" by simp
    with True e show ?thesis
      by (auto simp: split_def Let_def random_shuffle_mset)
  next
    case False
    with Cons.prems e have "map_of d b = Some t" by simp
    from Cons.IH [OF this] False e show ?thesis
      by (simp add: split_def Let_def)
  qed
qed

lemma shuffle_dict_keys: "map fst (fst (shuffle_dict rnd c d)) = map fst d"
  by (induction d arbitrary: c) (auto simp: split_def Let_def)

lemma shuffle_dict_None:
  "map_of d b = None \<Longrightarrow> map_of (fst (shuffle_dict rnd c d)) b = None"
  by (induction d arbitrary: c) (auto simp: split_def Let_def)

lemma read_all_open_rb: "read_all (open_rb m) = (m, \<lparr>content = m, pos = length m\<rparr>)"
  by (simp add: read_all_def open_rb_def)

lemma init_unfold:
  "EncryptMap_init rnd c (open_rb m) s =
     (if set m = UNIV
      then (Inr \<lparr>map_fp = \<lparr>content = m, pos = length m\<rparr>, strict = s,
                 emap = fst (shuffle_dict rnd c (init_scan m 0 []))\<rparr>,
            snd (shuffle_dict rnd c (init_scan m 0 [])))
      else (Inl (MapError ''Gaps in map file.''), c))"
  by (simp add: EncryptMap_init_def read_all_open_rb verify_init_scan shuffle_def split_def Let_def)

lemma init_entry:
  assumes "EncryptMap_init rnd c (open_rb m) s = (Inr em, c')"
  shows "\<exists>x. map_of (emap em) b = Some \<lparr>index = 0, tlist = x\<rparr> \<and> mset x = mset (positions m b)"
proof -
  from assms have all: "set m = UNIV"
    and em: "emap em = fst (shuffle_dict rnd c (init_scan m 0 []))"
    by (auto simp: init_unfold split: if_splits)
  from all have "map_of (init_scan m 0 []) b = Some \<lparr>index = 0, tlist = positions m b\<rparr>"
    by (simp add: map_of_init_scan_empty)
  from shuffle_dict_Some [OF this, of rnd c] em show ?thesis by auto
qed

lemma init_strict:
  "EncryptMap_init rnd c (open_rb m) s = (Inr em, c') \<Longrightarrow> strict em = s"
  by (auto simp: init_unfold split: if_splits)

lemma init_indexes_map:
  "EncryptMap_init rnd c (open_rb m) s = (Inr em, c') \<Longrightarrow> indexes_map m em"
  unfolding indexes_map_def using init_entry by fastforce

lemma init_cursor:
  "EncryptMap_init rnd c (open_rb m) s = (Inr em, c') \<Longrightarrow> cursor em b = 0"
  using init_entry [of rnd c m s em c' b] by (auto simp: cursor_def)

lemma init_succeeds:
  "set m = UNIV \<Longrightarrow> \<exists>em c'. EncryptMap_init rnd c (open_rb m) s = (Inr em, c')"
  by (simp add: init_unfold)

lemma map_of_store_tl: "map_of (emap (store_tl em b t)) = (map_of (emap em))(b \<mapsto> t)"
  by (simp add: store_tl_def update_conv')

lemma strict_store_tl: "strict (store_tl em b t) = strict em"
  by (simp add: store_tl_def)

lemma encode_fresh:
  "map_of (emap em) b = Some t \<Longrightarrow> index t < length (tlist t) \<Longrightarrow>
   encode em b = (Inr (tlist t ! index t), store_tl em b (t\<lparr>index := index t + 1\<rparr>))"
  by (simp add: encode_def next_tl_def)

lemma encode_exhausted_strict:
  "map_of (emap em) b = Some t \<Longrightarrow> length (tlist t) \<le> index t \<Longrightarrow> strict em \<Longrightarrow>
   encode em b = (Inl (MapError ''Map file not complex enough.''), em)"
  by (simp add: encode_def next_tl_def)

lemma encode_exhausted_reuse:
  "map_of (emap em) b = Some t \<Longrightarrow> length (tlist t) \<le> index t \<Longrightarrow> \<not> strict em \<Longrightarrow>
   tlist t \<noteq> [] \<Longrightarrow>
   encode em b = (Inr (tlist t ! 0), store_tl em b (t\<lparr>index := 1\<rparr>))"
  by (simp add: encode_def next_tl_def reset_def)

lemma indexes_map_entry:
  "indexes_map m em \<Longrightarrow> \<exists>t. map_of (emap em) b = Some t \<and> mset (tlist t) = mset (positions m b)"
  by (simp add: indexes_map_def)

lemma indexes_map_store:
  assumes "indexes_map m em" "map_of (emap em) b = Some t"
  shows "indexes_map m (store_tl em b (t\<lparr>index := i\<rparr>))"
  unfolding indexes_map_def
proof
  fix b'
  from assms(1) obtain t' where t': "map_of (emap em) b' = Some t'"
    "mset (tlist t') = mset (positions m b')"
    unfolding indexes_map_def by blast
  show "\<exists>u. map_of (emap (store_tl em b (t\<lparr>index := i\<rparr>))) b' = Some u \<and>
            mset (tlist u) = mset (positions m b')"
    using t' assms(2) by (cases "b' = b") (simp_all add: map_of_store_tl)
qed

lemma entry_position:
  assumes "mset (tlist t) = mset (positions m b)" "i < length (tlist t)"
  shows "tlist t ! i < length m \<and> m ! (tlist t ! i) = b"
proof -
  have "tlist t ! i \<in> set (tlist t)" using assms(2) by simp
  also have "set (tlist t) = set (positions m b)" using assms(1) by (rule mset_eq_setD)
  finally show ?thesis by (simp add: set_positions)
qed

lemma entry_length:
  "mset (tlist t) = mset (positions m b) \<Longrightarrow> length (tlist t) = count_list m b"
  using mset_eq_length [of "tlist t" "positions m b"] by (simp add: length_positions)

lemma entry_distinct:
  "mset (tlist t) = mset (positions m b) \<Longrightarrow> distinct (tlist t)"
  using mset_eq_imp_distinct_iff [of "tlist t" "positions m b"] by (simp add: distinct_positions)

lemma cursor_store:
  "cursor (store_tl em b t) b' = (if b' = b then index t else cursor em b')"
  by (simp add: cursor_def map_of_store_tl)

lemma slice_one:
  "p < length xs \<Longrightarrow> slice xs (int p) (int p + 1) = [xs ! p]"
proof -
  assume p: "p < length xs"
  have "slice_bound (length xs) (int p) = p" using p by (simp add: slice_bound_def)
  moreover have "slice_bound (length xs) (int p + 1) = p + 1"
    using p by (auto simp: slice_bound_def)
  ultimately have "slice xs (int p) (int p + 1) = take 1 (drop p xs)"
    by (simp add: slice_def)
  also have "\<dots> = [xs ! p]" using p
    by (metis Cons_nth_drop_Suc One_nat_def take0 take_Suc_Cons)
  finally show ?thesis .
qed

lemma slice_past_end:
  "int (length xs) \<le> p \<Longrightarrow> slice xs p (p + 1) = []"
  by (simp add: slice_def slice_bound_def)

lemma decrypt_in_memory_loop_in_range:
  "\<forall>p\<in>set ps. p < length m \<Longrightarrow>
   decrypt_in_memory_loop m (map int ps) out = (Finished, out @ map ((!) m) ps)"
  by (induction ps arbitrary: out) (simp_all add: slice_one)

lemma decrypt_in_memory_in_range:
  "\<forall>p\<in>set ps. p < length m \<Longrightarrow> decrypt_in_memory m (map int ps) = (Finished, map ((!) m) ps)"
  by (simp add: decrypt_in_memory_def read_all_open_rb decrypt_in_memory_loop_in_range)

lemma encrypt_loop_strict_enough:
  assumes "indexes_map m em" "strict em"
    and "\<forall>b. cursor em b + count_list bs b \<le> count_list m b"
  shows "\<exists>ps em'. encrypt_loop em bs out = (Finished, out @ ps, em') \<and>
           (\<forall>p\<in>set ps. p < length m) \<and> map ((!) m) ps = bs"
  using assms
proof (induction bs arbitrary: em out)
  case Nil
  then show ?case by simp
next
  case (Cons b bs)
  from indexes_map_entry [OF Cons.prems(1), of b] obtain t
    where t: "map_of (emap em) b = Some t" "mset (tlist t) = mset (positions m b)" by blast
  have "cursor em b + count_list (b # bs) b \<le> count_list m b" using Cons.prems(3) by blast
  then have fresh: "index t < length (tlist t)"
    using t by (simp add: cursor_def entry_length)
  let ?em = "store_tl em b (t\<lparr>index := index t + 1\<rparr>)"
  let ?v = "tlist t ! index t"
  have enc: "encode em b = (Inr ?v, ?em)" by (rule encode_fresh [OF t(1) fresh])
  have 1: "indexes_map m ?em" by (rule indexes_map_store [OF Cons.prems(1) t(1)])
  have 2: "strict ?em" using Cons.prems(2) by (simp add: strict_store_tl)
  have cur: "cursor em b = index t" using t(1) by (simp add: cursor_def)
  have 3: "\<forall>b'. cursor ?em b' + count_list bs b' \<le> count_list m b'"
  proof
    fix b'
    have "cursor em b' + count_list (b # bs) b' \<le> count_list m b'"
      using Cons.prems(3) by blast
    then show "cursor ?em b' + count_list bs b' \<le> count_list m b'"
      using cur by (cases "b' = b") (simp_all add: cursor_store)
  qed
  from Cons.IH [OF 1 2 3, of "out @ [?v]"] obtain ps em'
    where ps: "encrypt_loop ?em bs (out @ [?v]) = (Finished, (out @ [?v]) @ ps, em')"
      "\<forall>p\<in>set ps. p < length m" "map ((!) m) ps = bs" by blast
  have v: "?v < length m \<and> m ! ?v = b" by (rule entry_position [OF t(2) fresh])
  have A: "encrypt_loop em (b # bs) out = (Finished, out @ (?v # ps), em')"
    using enc ps(1) by simp
  have B: "\<forall>p\<in>set (?v # ps). p < length m" using v ps(2) by simp
  have C: "map ((!) m) (?v # ps) = b # bs" using v ps(3) by simp
  show ?case
    by (rule exI [of _ "?v # ps"], rule exI [of _ em'], intro conjI A B C)
qed

lemma unused_after_encode:
  assumes inv: "indexes_map m em" and t: "map_of (emap em) b = Some t"
    and fresh: "index t < length (tlist t)"
  shows "unused (store_tl em b (t\<lparr>index := index t + 1\<rparr>)) \<subseteq> unused em - {tlist t ! index t}"
proof
  let ?v = "tlist t ! index t"
  fix p assume "p \<in> unused (store_tl em b (t\<lparr>index := index t + 1\<rparr>))"
  then obtain b' u where u: "((map_of (emap em))(b \<mapsto> t\<lparr>index := index t + 1\<rparr>)) b' = Some u"
    "p \<in> set (drop (index u) (tlist u))"
    by (auto simp: unused_def map_of_store_tl)
  from indexes_map_entry [OF inv, of b] t have mt: "mset (tlist t) = mset (positions m b)" by simp
  have dt: "distinct (tlist t)" by (rule entry_distinct [OF mt])
  show "p \<in> unused em - {?v}"
  proof (cases "b' = b")
    case True
    with u have p: "p \<in> set (drop (Suc (index t)) (tlist t))" by auto
    then have "p \<in> set (drop (index t) (tlist t))"
      by (metis Suc_n_not_le_n in_set_dropD nat_le_linear set_drop_subset_set_drop subsetD)
    then have "p \<in> unused em" using t by (auto simp: unused_def)
    moreover have "p \<noteq> ?v"
    proof
      assume "p = ?v"
      with p obtain k where "k < length (tlist t) - Suc (index t)" "tlist t ! (Suc (index t) + k) = tlist t ! index t"
        by (auto simp: in_set_conv_nth)
      then show False using dt fresh by (auto simp: nth_eq_iff_index_eq)
    qed
    ultimately show ?thesis by simp
  next
    case False
    with u have u': "map_of (emap em) b' = Some u" by simp
    then have "p \<in> unused em" using u(2) by (auto simp: unused_def)
    moreover have "p \<noteq> ?v"
    proof
      assume "p = ?v"
      from indexes_map_entry [OF inv, of b'] u'
      have "mset (tlist u) = mset (positions m b')" by simp
      then have "set (tlist u) = set (positions m b')" by (rule mset_eq_setD)
      moreover have "p \<in> set (tlist u)" using u(2) by (rule in_set_dropD)
      ultimately have "m ! p = b'" by (simp add: set_positions)
      moreover have "m ! ?v = b" using entry_position [OF mt fresh] by simp
      ultimately show False using False \<open>p = ?v\<close> by simp
    qed
    ultimately show ?thesis by simp
  qed
qed

lemma encrypt_loop_strict_distinct:
  assumes "indexes_map m em" "strict em" "encrypt_loop em bs out = (r, out', em')"
  shows "\<exists>ps. out' = out @ ps \<and> distinct ps \<and> set ps \<subseteq> unused em"
  using assms
proof (induction bs arbitrary: em out)
  case Nil
  then show ?case by simp
next
  case (Cons b bs)
  from indexes_map_entry [OF Cons.prems(1), of b] obtain t
    where t: "map_of (emap em) b = Some t" "mset (tlist t) = mset (positions m b)" by blast
  show ?case
  proof (cases "index t < length (tlist t)")
    case True
    let ?em = "store_tl em b (t\<lparr>index := index t + 1\<rparr>)"
    let ?v = "tlist t ! index t"
    have enc: "encode em b = (Inr ?v, ?em)" by (rule encode_fresh [OF t(1) True])
    have 1: "indexes_map m ?em" by (rule indexes_map_store [OF Cons.prems(1) t(1)])
    have 2: "strict ?em" using Cons.prems(2) by (simp add: strict_store_tl)
    have 3: "encrypt_loop ?em bs (out @ [?v]) = (r, out', em')"
      using Cons.prems(3) enc by simp
    from Cons.IH [OF 1 2 3] obtain ps
      where ps: "out' = (out @ [?v]) @ ps" "distinct ps" "set ps \<subseteq> unused ?em" by blast
    have sub: "unused ?em \<subseteq> unused em - {?v}"
      by (rule unused_after_encode [OF Cons.prems(1) t(1) True])
    have "?v \<in> set (drop (index t) (tlist t))"
      using True by (metis Cons_nth_drop_Suc list.set_intros(1))
    then have "?v \<in> unused em" using t(1) by (auto simp: unused_def)
    with ps sub have "out' = out @ (?v # ps) \<and> distinct (?v # ps) \<and> set (?v # ps) \<subseteq> unused em"
      by auto
    then show ?thesis by blast
  next
    case False
    then have "encode em b = (Inl (MapError ''Map file not complex enough.''), em)"
      using encode_exhausted_strict [OF t(1) _ Cons.prems(2)] by simp
    with Cons.prems(3) have "out' = out" by simp
    then show ?thesis by simp
  qed
qed

lemma encrypt_loop_reuse_total:
  assumes "indexes_map m em" "\<not> strict em" "set m = UNIV"
  shows "\<exists>ps em'. encrypt_loop em bs out = (Finished, out @ ps, em') \<and> length ps = length bs \<and>
           indexes_map m em' \<and> \<not> strict em'"
  using assms(1,2)
proof (induction bs arbitrary: em out)
  case Nil
  then show ?case by simp
next
  case (Cons b bs)
  from indexes_map_entry [OF Cons.prems(1), of b] obtain t
    where t: "map_of (emap em) b = Some t" "mset (tlist t) = mset (positions m b)" by blast
  have ne: "tlist t \<noteq> []"
  proof
    assume "tlist t = []"
    with t(2) have "positions m b = []" by simp
    then show False using assms(3) by (simp add: positions_empty_iff)
  qed
  obtain v i where enc: "encode em b = (Inr v, store_tl em b (t\<lparr>index := i\<rparr>))"
  proof (cases "index t < length (tlist t)")
    case True
    from encode_fresh [OF t(1) True] that show ?thesis by blast
  next
    case False
    then have "length (tlist t) \<le> index t" by simp
    from encode_exhausted_reuse [OF t(1) this Cons.prems(2) ne] that show ?thesis by blast
  qed
  let ?em = "store_tl em b (t\<lparr>index := i\<rparr>)"
  have 1: "indexes_map m ?em" by (rule indexes_map_store [OF Cons.prems(1) t(1)])
  have 2: "\<not> strict ?em" using Cons.prems(2) by (simp add: strict_store_tl)
  from Cons.IH [OF 1 2, of "out @ [v]"] obtain ps em'
    where ps: "encrypt_loop ?em bs (out @ [v]) = (Finished, (out @ [v]) @ ps, em')"
      "length ps = length bs" "indexes_map m em'" "\<not> strict em'" by blast
  have A: "encrypt_loop em (b # bs) out = (Finished, out @ (v # ps), em')"
    using enc ps(1) by simp
  have B: "length (v # ps) = length (b # bs)" using ps(2) by simp
  show ?case
    by (rule exI [of _ "v # ps"], rule exI [of _ em'], intro conjI A B ps(3) ps(4))
qed

lemma set_all_bytes: "set all_bytes = UNIV"
proof -
  have "w \<in> set all_bytes" for w :: byte
  proof -
    have "unat w < 256" using unsigned_less [of w, where 'a = nat] by simp
    moreover have "w = of_nat (unat w)" by simp
    ultimately show ?thesis unfolding all_bytes_def by (metis atLeast0LessThan imageI lessThan_iff set_map set_upt)
  qed
  then show ?thesis by blast
qed

lemma distinct_all_bytes: "distinct all_bytes"
proof -
  have "inj_on (of_nat :: nat \<Rightarrow> byte) {0..<256}"
  proof (rule inj_onI)
    fix x y :: nat
    assume "x \<in> {0..<256}" "y \<in> {0..<256}" "(of_nat x :: byte) = of_nat y"
    then have "unat (of_nat x :: byte) = unat (of_nat y :: byte)" "x < 256" "y < 256" by simp_all
    then show "x = y" by (simp add: unat_of_nat)
  qed
  then show ?thesis by (simp add: all_bytes_def distinct_map)
qed

lemma count_all_bytes: "count_list all_bytes v = 1"
  using distinct_all_bytes set_all_bytes
  by (metis UNIV_I count_mset distinct_count_atmost_1)

lemma all_bytes_twice: "set (all_bytes @ all_bytes) = UNIV"
  by (simp add: set_all_bytes)

lemma count_all_bytes_twice: "count_list (all_bytes @ all_bytes) v = 2"
  by (simp add: count_all_bytes)

lemma sort_cong_mset: "mset xs = mset ys \<Longrightarrow> sort xs = sort ys"
  by (metis sorted_list_of_multiset_mset)

lemma positions_filter: "positions m b = [p \<leftarrow> [0..<length m]. m ! p = b]"
proof (rule sorted_distinct_set_unique)
  have "sorted (positions_from xs idx b)" for xs idx
  proof (induction xs arbitrary: idx)
    case Nil
    then show ?case by simp
  next
    case (Cons x xs)
    have "\<forall>p\<in>set (positions_from xs (Suc idx) b). idx \<le> p"
      by (auto simp: set_positions_from)
    with Cons [of "Suc idx"] show ?case by simp
  qed
  then show "sorted (positions m b)" by (simp add: positions_def)
  show "distinct (positions m b)" by (rule distinct_positions)
  show "sorted [p \<leftarrow> [0..<length m]. m ! p = b]" by (simp add: sorted_filter [where f = "\<lambda>x. x", simplified])
  show "distinct [p \<leftarrow> [0..<length m]. m ! p = b]" by simp
  show "set (positions m b) = set [p \<leftarrow> [0..<length m]. m ! p = b]"
    by (auto simp: set_positions)
qed

lemma init_entry_nonempty:
  assumes "EncryptMap_init rnd c (open_rb m) s = (Inr em, c')"
  shows "\<exists>t. map_of (emap em) b = Some t \<and> tlist t \<noteq> []"
proof -
  from assms have all: "set m = UNIV" by (auto simp: init_unfold split: if_splits)
  from init_entry [OF assms, of b] obtain x
    where x: "map_of (emap em) b = Some \<lparr>index = 0, tlist = x\<rparr>" "mset x = mset (positions m b)"
    by blast
  have "x \<noteq> []"
  proof
    assume "x = []"
    with x(2) have "positions m b = []" by simp
    then show False using all by (simp add: positions_empty_iff)
  qed
  with x(1) show ?thesis by simp
qed

lemma single_occurrence_entry:
  assumes "EncryptMap_init rnd c (open_rb m) s = (Inr em, c')" and "count_list m b = 1"
  shows "\<exists>p. map_of (emap em) b = Some \<lparr>index = 0, tlist = [p]\<rparr> \<and> p < length m \<and> m ! p = b"
proof -
  from init_entry [OF assms(1), of b] obtain x
    where x: "map_of (emap em) b = Some \<lparr>index = 0, tlist = x\<rparr>" "mset x = mset (positions m b)"
    by blast
  have "length x = 1"
    using mset_eq_length [OF x(2)] assms(2) by (simp add: length_positions)
  then obtain p where p: "x = [p]" by (cases x) auto
  have "p \<in> set (positions m b)" using mset_eq_setD [OF x(2)] p by auto
  then have "p < length m \<and> m ! p = b" by (simp add: set_positions)
  with x(1) p show ?thesis by simp
qed

lemma encode_single_first:
  assumes "map_of (emap em) b = Some \<lparr>index = 0, tlist = [p]\<rparr>"
  shows "encode em b = (Inr p, store_tl em b \<lparr>index = 1, tlist = [p]\<rparr>)"
  using encode_fresh [OF assms] by simp

lemma encode_single_second_strict:
  assumes "strict em"
  shows "encode (store_tl em b \<lparr>index = 1, tlist = [p]\<rparr>) b =
           (Inl (MapError ''Map file not complex enough.''), store_tl em b \<lparr>index = 1, tlist = [p]\<rparr>)"
proof -
  let ?em = "store_tl em b \<lparr>index = 1, tlist = [p]\<rparr>"
  have "map_of (emap ?em) b = Some \<lparr>index = 1, tlist = [p]\<rparr>" by (simp add: map_of_store_tl)
  from encode_exhausted_strict [OF this] assms show ?thesis by (simp add: strict_store_tl)
qed

lemma encode_single_second_reuse:
  assumes "\<not> strict em"
  shows "encode (store_tl em b \<lparr>index = 1, tlist = [p]\<rparr>) b =
           (Inr p, store_tl (store_tl em b \<lparr>index = 1, tlist = [p]\<rparr>) b \<lparr>index = 1, tlist = [p]\<rparr>)"
proof -
  let ?em = "store_tl em b \<lparr>index = 1, tlist = [p]\<rparr>"
  have "map_of (emap ?em) b = Some \<lparr>index = 1, tlist = [p]\<rparr>" by (simp add: map_of_store_tl)
  from encode_exhausted_reuse [OF this] assms show ?thesis by (simp add: strict_store_tl)
qed

lemma encrypt_loop_strict_prefix:
  assumes "indexes_map m em" "strict em" "encrypt_loop em bs out = (r, out', em')"
  shows "\<exists>ps. out' = out @ ps \<and> (\<forall>p\<in>set ps. p < length m) \<and>
           map ((!) m) ps = take (length ps) bs \<and>
           (r = Finished \<and> length ps = length bs \<or> r = Exited 1 \<and> length ps < length bs)"
  using assms
proof (induction bs arbitrary: em out)
  case Nil
  then show ?case by simp
next
  case (Cons b bs)
  from indexes_map_entry [OF Cons.prems(1), of b] obtain t
    where t: "map_of (emap em) b = Some t" "mset (tlist t) = mset (positions m b)" by blast
  show ?case
  proof (cases "index t < length (tlist t)")
    case True
    let ?em = "store_tl em b (t\<lparr>index := index t + 1\<rparr>)"
    let ?v = "tlist t ! index t"
    have enc: "encode em b = (Inr ?v, ?em)" by (rule encode_fresh [OF t(1) True])
    have 1: "indexes_map m ?em" by (rule indexes_map_store [OF Cons.prems(1) t(1)])
    have 2: "strict ?em" using Cons.prems(2) by (simp add: strict_store_tl)
    have 3: "encrypt_loop ?em bs (out @ [?v]) = (r, out', em')"
      using Cons.prems(3) enc by simp
    from Cons.IH [OF 1 2 3] obtain ps
      where ps: "out' = (out @ [?v]) @ ps" "\<forall>p\<in>set ps. p < length m"
        "map ((!) m) ps = take (length ps) bs"
        "r = Finished \<and> length ps = length bs \<or> r = Exited 1 \<and> length ps < length bs"
      by blast
    have v: "?v < length m \<and> m ! ?v = b" by (rule entry_position [OF t(2) True])
    have A: "out' = out @ (?v # ps)" using ps(1) by simp
    have B: "\<forall>p\<in>set (?v # ps). p < length m" using v ps(2) by simp
    have C: "map ((!) m) (?v # ps) = take (length (?v # ps)) (b # bs)" using v ps(3) by simp
    have D: "r = Finished \<and> length (?v # ps) = length (b # bs) \<or>
             r = Exited 1 \<and> length (?v # ps) < length (b # bs)" using ps(4) by simp
    show ?thesis by (rule exI [of _ "?v # ps"], intro conjI A B C D)
  next
    case False
    then have "encode em b = (Inl (MapError ''Map file not complex enough.''), em)"
      using encode_exhausted_strict [OF t(1) _ Cons.prems(2)] by simp
    with Cons.prems(3) have "out' = out" "r = Exited 1" by simp_all
    then show ?thesis by simp
  qed
qed

lemma single_occurrence_strict_run:
  assumes "set m = UNIV" "count_list m b = 1"
  shows "\<exists>p. p < length m \<and> m ! p = b \<and>
             encrypt_in_memory rnd c True m [b, b] = (Exited 1, [p])"
proof -
  from init_succeeds [OF assms(1), of rnd c True] obtain em c'
    where init: "EncryptMap_init rnd c (open_rb m) True = (Inr em, c')" by blast
  from single_occurrence_entry [OF init assms(2)] obtain p
    where p: "map_of (emap em) b = Some \<lparr>index = 0, tlist = [p]\<rparr>" "p < length m" "m ! p = b"
    by blast
  let ?em1 = "store_tl em b \<lparr>index = 1, tlist = [p]\<rparr>"
  have str: "strict em" using init_strict [OF init] by simp
  have e1: "encode em b = (Inr p, ?em1)" by (rule encode_single_first [OF p(1)])
  have e2: "encode ?em1 b = (Inl (MapError ''Map file not complex enough.''), ?em1)"
    by (rule encode_single_second_strict [OF str])
  have "encrypt_in_memory rnd c True m [b, b] = (Exited 1, [p])"
    using e1 e2 by (simp add: encrypt_in_memory_def init)
  with p(2,3) show ?thesis by blast
qed

lemma length_all_bytes: "length all_bytes = 256"
  by (simp add: all_bytes_def)

lemma nth_all_bytes: "p < 256 \<Longrightarrow> all_bytes ! p = of_nat p"
  by (simp add: all_bytes_def)

lemma all_bytes_position:
  assumes "p < length all_bytes" "all_bytes ! p = of_nat k" "k < 256"
  shows "p = k"
proof -
  have p: "p < 256" using assms(1) by (simp add: length_all_bytes)
  then have "(of_nat p :: byte) = of_nat k" using assms(2) by (simp add: nth_all_bytes)
  then have "unat (of_nat p :: byte) = unat (of_nat k :: byte)" by simp
  then show ?thesis using p assms(3) by (simp add: unat_of_nat)
qed

lemma all_bytes_AA_strict:
  "encrypt_in_memory rnd c True all_bytes [0x41, 0x41] = (Exited 1, [65])"
proof -
  from single_occurrence_strict_run [OF set_all_bytes count_all_bytes, of "0x41" rnd c]
  obtain p where p: "p < length all_bytes" "all_bytes ! p = 0x41"
    "encrypt_in_memory rnd c True all_bytes [0x41, 0x41] = (Exited 1, [p])" by blast
  have "all_bytes ! p = of_nat 65" using p(2) by simp
  from all_bytes_position [OF p(1) this] have "p = 65" by simp
  with p(3) show ?thesis by simp
qed

lemma decrypt_in_memory_loop_concat:
  "decrypt_in_memory_loop m ls out = (Finished, out @ concat (map (\<lambda>i. slice m i (i + 1)) ls))"
  by (induction ls arbitrary: out) simp_all

lemma encrypt_loop_strict_state:
  assumes "indexes_map m em" "strict em"
    and "\<forall>b. cursor em b + count_list bs b \<le> count_list m b"
  shows "\<exists>ps em'. encrypt_loop em bs out = (Finished, out @ ps, em') \<and>
           length ps = length bs \<and> (\<forall>p\<in>set ps. p < length m) \<and> map ((!) m) ps = bs \<and>
           indexes_map m em' \<and> strict em' \<and>
           (\<forall>b. cursor em' b = cursor em b + count_list bs b)"
  using assms
proof (induction bs arbitrary: em out)
  case Nil
  then show ?case by simp
next
  case (Cons b bs)
  from indexes_map_entry [OF Cons.prems(1), of b] obtain t
    where t: "map_of (emap em) b = Some t" "mset (tlist t) = mset (positions m b)" by blast
  have cur: "cursor em b = index t" using t(1) by (simp add: cursor_def)
  have "cursor em b + count_list (b # bs) b \<le> count_list m b" using Cons.prems(3) by blast
  then have fresh: "index t < length (tlist t)"
    using t by (simp add: cursor_def entry_length)
  let ?em = "store_tl em b (t\<lparr>index := index t + 1\<rparr>)"
  let ?v = "tlist t ! index t"
  have enc: "encode em b = (Inr ?v, ?em)" by (rule encode_fresh [OF t(1) fresh])
  have 1: "indexes_map m ?em" by (rule indexes_map_store [OF Cons.prems(1) t(1)])
  have 2: "strict ?em" using Cons.prems(2) by (simp add: strict_store_tl)
  have step: "cursor ?em b' + count_list bs b' = cursor em b' + count_list (b # bs) b'" for b'
    using cur by (cases "b' = b") (simp_all add: cursor_store)
  have 3: "\<forall>b'. cursor ?em b' + count_list bs b' \<le> count_list m b'"
    using Cons.prems(3) step by simp
  from Cons.IH [OF 1 2 3, of "out @ [?v]"] obtain ps em'
    where ps: "encrypt_loop ?em bs (out @ [?v]) = (Finished, (out @ [?v]) @ ps, em')"
      "length ps = length bs" "\<forall>p\<in>set ps. p < length m" "map ((!) m) ps = bs"
      "indexes_map m em'" "strict em'" "\<forall>b. cursor em' b = cursor ?em b + count_list bs b"
    by blast
  have v: "?v < length m \<and> m ! ?v = b" by (rule entry_position [OF t(2) fresh])
  have A: "encrypt_loop em (b # bs) out = (Finished, out @ (?v # ps), em')"
    using enc ps(1) by simp
  have B: "length (?v # ps) = length (b # bs)" using ps(2) by simp
  have C: "\<forall>p\<in>set (?v # ps). p < length m" using v ps(3) by simp
  have D: "map ((!) m) (?v # ps) = b # bs" using v ps(4) by simp
  have E: "\<forall>b'. cursor em' b' = cursor em b' + count_list (b # bs) b'"
    using ps(7) step by simp
  show ?case
    by (rule exI [of _ "?v # ps"], rule exI [of _ em'], intro conjI A B C D ps(5) ps(6) E)
qed

lemma encrypt_loop_append:
  "encrypt_loop em bs1 out = (Finished, out1, em1) \<Longrightarrow>
   encrypt_loop em (bs1 @ bs2) out = encrypt_loop em1 bs2 out1"
proof (induction bs1 arbitrary: em out)
  case Nil
  then show ?case by simp
next
  case (Cons b bs)
  obtain r em' where e: "encode em b = (r, em')" by (cases "encode em b")
  show ?case
  proof (cases r)
    case (Inr v)
    with Cons.prems e have "encrypt_loop em' bs (out @ [v]) = (Finished, out1, em1)" by simp
    from Cons.IH [OF this] e Inr show ?thesis by simp
  next
    case (Inl x)
    with Cons.prems e show ?thesis by (cases x) simp_all
  qed
qed

lemma encode_used_up_strict:
  assumes "indexes_map m em" "strict em" "cursor em b = count_list m b"
  shows "encode em b = (Inl (MapError ''Map file not complex enough.''), em)"
proof -
  from indexes_map_entry [OF assms(1), of b] obtain t
    where t: "map_of (emap em) b = Some t" "mset (tlist t) = mset (positions m b)" by blast
  have "length (tlist t) \<le> index t"
    using assms(3) t by (simp add: cursor_def entry_length)
  from encode_exhausted_strict [OF t(1) this assms(2)] show ?thesis .
qed

lemma seek_accepts:
  "0 \<le> p \<Longrightarrow> p \<le> int max_offset \<Longrightarrow> p < 2 ^ 63 \<Longrightarrow>
   seek max_offset fp p = Inr (fp\<lparr>pos := nat p\<rparr>)"
  by (simp add: seek_def)

lemma seek_refuses:
  "0 \<le> p \<Longrightarrow> \<not> (p \<le> int max_offset \<and> p < 2 ^ 63) \<Longrightarrow>
   seek max_offset fp p = Inl (if 2 ^ 63 \<le> p then ValueError else OSError)"
  by (auto simp: seek_def)

lemma seek_content:
  "seek max_offset fp p = Inr fp' \<Longrightarrow> content fp' = content fp"
  by (auto simp: seek_def split: if_splits)

lemma seek_same_content:
  "content fp = content fp' \<Longrightarrow> seek max_offset fp p = Inr fp1 \<Longrightarrow>
   seek max_offset fp' p = Inr fp1"
  by (auto simp: seek_def split: if_splits)

lemma seek_same_error:
  "seek max_offset fp p = Inl e \<Longrightarrow> seek max_offset fp' p = Inl e"
  by (auto simp: seek_def split: if_splits)

lemma decrypt_streaming_loop_content:
  "content fp = content fp' \<Longrightarrow>
   decrypt_streaming_loop max_offset fp ls out = decrypt_streaming_loop max_offset fp' ls out"
proof (cases ls)
  case Nil
  then show ?thesis by simp
next
  case (Cons l ls')
  assume c: "content fp = content fp'"
  show ?thesis
  proof (cases "seek max_offset fp l")
    case (Inl e)
    from seek_same_error [OF this, of fp'] Inl Cons show ?thesis by simp
  next
    case (Inr fp1)
    from seek_same_content [OF c this] Inr Cons show ?thesis by simp
  qed
qed

lemma read1_past_end:
  "length (content fp) \<le> pos fp \<Longrightarrow> read1 fp = ([], fp)"
  by (simp add: read1_def)

lemma read1_keeps_content: "content (snd (read1 fp)) = content fp"
  by (simp add: read1_def Let_def)

lemma decrypt_streaming_loop_append:
  "decrypt_streaming_loop max_offset fp xs out = (Finished, out1) \<Longrightarrow>
   decrypt_streaming_loop max_offset fp (xs @ ys) out =
     decrypt_streaming_loop max_offset fp ys out1"
proof (induction xs arbitrary: fp out)
  case Nil
  then show ?case by simp
next
  case (Cons x xs)
  show ?case
  proof (cases "seek max_offset fp x")
    case (Inl e)
    with Cons.prems show ?thesis by simp
  next
    case (Inr fp1)
    let ?fp2 = "snd (read1 fp1)"
    from Cons.prems Inr
    have run: "decrypt_streaming_loop max_offset ?fp2 xs (out @ fst (read1 fp1)) = (Finished, out1)"
      by simp
    have "content ?fp2 = content fp"
      using seek_content [OF Inr] by (simp add: read1_keeps_content)
    then have same: "decrypt_streaming_loop max_offset ?fp2 ys out1 =
        decrypt_streaming_loop max_offset fp ys out1"
      by (rule decrypt_streaming_loop_content)
    from Cons.IH [OF run] Inr same show ?thesis by simp
  qed
qed

lemma decrypt_streaming_loop_skip_one:
  assumes "int (length (content fp)) \<le> p" "p \<le> int max_offset" "p < 2 ^ 63"
  shows "decrypt_streaming_loop max_offset fp (p # ys) out =
           decrypt_streaming_loop max_offset fp ys out"
proof -
  have p0: "0 \<le> p" using assms(1) by simp
  let ?fp = "fp\<lparr>pos := nat p\<rparr>"
  have s: "seek max_offset fp p = Inr ?fp" by (rule seek_accepts [OF p0 assms(2,3)])
  have r: "read1 ?fp = ([], ?fp)" using assms(1) by (intro read1_past_end) simp
  have "decrypt_streaming_loop max_offset fp (p # ys) out =
          decrypt_streaming_loop max_offset ?fp ys out"
    using s r by simp
  also have "\<dots> = decrypt_streaming_loop max_offset fp ys out"
    by (rule decrypt_streaming_loop_content) simp
  finally show ?thesis .
qed

lemma decrypt_streaming_loop_total:
  "\<exists>r out1. decrypt_streaming_loop max_offset fp xs out = (r, out1)"
  by simp

text \<open>
  The two loops of \<open>find_next_byte\<close> are unfolded by hand, one turn at a time.
\<close>

declare scan_first.simps [simp del] scan_wrap.simps [simp del]

lemma take1_drop_cases:
  "take (Suc 0) (drop q c) = (if q < length c then [c ! q] else [])"
proof (cases "q < length c")
  case True
  then have "drop q c = c ! q # drop (Suc q) c" by (simp add: Cons_nth_drop_Suc)
  then show ?thesis using True by simp
next
  case False
  then show ?thesis by simp
qed

lemma read1_fst: "fst (read1 fp) = take 1 (drop (pos fp) (content (snd (read1 fp))))"
  by (simp add: read1_def Let_def)

lemma read1_pos: "pos (snd (read1 fp)) = pos fp + length (fst (read1 fp))"
  by (simp add: read1_def Let_def)

lemma scan_first_result:
  assumes "t = [b]" "cur = take 1 (drop q (content fp))" "pos fp = q + length cur"
    "scan_first fp t cur n = (cur', n', fp')"
  shows "content fp' = content fp \<and> (cur' = [b] \<or> cur' = []) \<and>
         (cur' = [b] \<longrightarrow> (\<exists>k. n' = n + k \<and> q + k < length (content fp) \<and>
                               content fp ! (q + k) = b)) \<and>
         (cur' = [] \<longrightarrow> b \<notin> set (drop q (content fp)))"
  using assms
proof (induction fp t cur n arbitrary: q rule: scan_first.induct)
  case (1 fp t cur n)
  let ?c = "content fp"
  show ?case
  proof (cases "length cur = 1 \<and> cur \<noteq> t")
    case False
    then have res: "cur' = cur" "n' = n" "fp' = fp"
      using "1.prems"(4) by (auto simp: scan_first.simps [of fp t cur n] split: if_splits)
    show ?thesis
    proof (cases "q < length ?c")
      case True
      then have cur: "cur = [?c ! q]" using "1.prems"(2) by (simp add: take1_drop_cases)
      with False "1.prems"(1) have "?c ! q = b" by simp
      then have "n' = n + 0 \<and> q + 0 < length ?c \<and> ?c ! (q + 0) = b"
        using res True by simp
      then have "\<exists>k. n' = n + k \<and> q + k < length ?c \<and> ?c ! (q + k) = b" by blast
      with res cur \<open>?c ! q = b\<close> show ?thesis by simp
    next
      case F: False
      then have "cur = []" using "1.prems"(2) by (simp add: take1_drop_cases)
      with res F show ?thesis by simp
    qed
  next
    case True
    then have q: "q < length ?c" and cur: "cur = [?c ! q]" and ne: "?c ! q \<noteq> b"
      using "1.prems"(1,2) by (auto simp: take1_drop_cases split: if_splits)
    have p: "pos fp = Suc q" using "1.prems"(3) cur by simp
    let ?fp = "snd (read1 fp)" and ?cur = "fst (read1 fp)"
    have c: "content ?fp = ?c" by (rule read1_keeps_content)
    have a2: "?cur = take 1 (drop (Suc q) (content ?fp))" using read1_fst [of fp] p by simp
    have a3: "pos ?fp = Suc q + length ?cur" using read1_pos [of fp] p by simp
    have a4: "scan_first ?fp t ?cur (n + 1) = (cur', n', fp')"
      using "1.prems"(4) True by (simp add: scan_first.simps [of fp t cur n])
    note IH = "1.IH" [OF True "1.prems"(1) a2 a3 a4, unfolded c]
    have d: "drop q ?c = ?c ! q # drop (Suc q) ?c" using q by (simp add: Cons_nth_drop_Suc)
    show ?thesis
    proof (intro conjI impI)
      show "content fp' = ?c" using IH by blast
      show "cur' = [b] \<or> cur' = []" using IH by blast
    next
      assume "cur' = [b]"
      with IH obtain k where k: "n' = n + 1 + k" "Suc q + k < length ?c" "?c ! (Suc q + k) = b"
        by blast
      then have "n' = n + Suc k \<and> q + Suc k < length ?c \<and> ?c ! (q + Suc k) = b" by simp
      then show "\<exists>k. n' = n + k \<and> q + k < length ?c \<and> ?c ! (q + k) = b" by blast
    next
      assume "cur' = []"
      with IH have "b \<notin> set (drop (Suc q) ?c)" by blast
      with ne show "b \<notin> set (drop q ?c)" by (simp add: d)
    qed
  qed
qed

lemma scan_wrap_result:
  assumes "t = [b]" "cur = take 1 (drop n (content fp))" "pos fp = n + length cur"
    "scan_wrap fp t idx cur n = (cur', n', fp')"
  shows "content fp' = content fp \<and>
         (cur' = [b] \<longrightarrow> n' < length (content fp) \<and> content fp ! n' = b) \<and>
         (cur' \<noteq> [b] \<longrightarrow> (\<forall>i. n \<le> i \<and> i \<le> idx \<and> i < length (content fp)
                                 \<longrightarrow> content fp ! i \<noteq> b)) \<and>
         (n \<le> idx \<longrightarrow> pos fp' \<le> idx + 1)"
  using assms
proof (induction fp t idx cur n rule: scan_wrap.induct)
  case (1 fp t idx cur n)
  let ?c = "content fp"
  show ?case
  proof (cases "length cur = 1 \<and> n < idx \<and> cur \<noteq> t")
    case False
    then have res: "cur' = cur" "n' = n" "fp' = fp"
      using "1.prems"(4) by (auto simp: scan_wrap.simps [of fp t idx cur n] split: if_splits)
    show ?thesis
    proof (cases "n < length ?c")
      case True
      then have cur: "cur = [?c ! n]" using "1.prems"(2) by (simp add: take1_drop_cases)
      have nf: "\<forall>i. n \<le> i \<and> i \<le> idx \<and> i < length ?c \<longrightarrow> ?c ! i \<noteq> b" if "cur \<noteq> [b]"
      proof (intro allI impI)
        fix i assume i: "n \<le> i \<and> i \<le> idx \<and> i < length ?c"
        from False cur that "1.prems"(1) have "\<not> n < idx" by simp
        with i have "i = n" by simp
        with that cur show "?c ! i \<noteq> b" by simp
      qed
      have ps: "pos fp' \<le> idx + 1" if "n \<le> idx"
        using that res "1.prems"(3) cur by simp
      show ?thesis using res cur True nf ps by simp
    next
      case F: False
      then have "cur = []" using "1.prems"(2) by (simp add: take1_drop_cases)
      with res F "1.prems"(3) show ?thesis by auto
    qed
  next
    case True
    then have q: "n < length ?c" and cur: "cur = [?c ! n]" and ne: "?c ! n \<noteq> b"
      and lt: "n < idx"
      using "1.prems"(1,2) by (auto simp: take1_drop_cases split: if_splits)
    have p: "pos fp = Suc n" using "1.prems"(3) cur by simp
    let ?fp = "snd (read1 fp)" and ?cur = "fst (read1 fp)"
    have c: "content ?fp = ?c" by (rule read1_keeps_content)
    have a2: "?cur = take 1 (drop (n + 1) (content ?fp))" using read1_fst [of fp] p by simp
    have a3: "pos ?fp = (n + 1) + length ?cur" using read1_pos [of fp] p by simp
    have a4: "scan_wrap ?fp t idx ?cur (n + 1) = (cur', n', fp')"
      using "1.prems"(4) True by (simp add: scan_wrap.simps [of fp t idx cur n])
    note IH = "1.IH" [OF True "1.prems"(1) a2 a3 a4, unfolded c]
    show ?thesis
    proof (intro conjI impI allI)
      show "content fp' = ?c" using IH by blast
    next
      assume "cur' = [b]"
      with IH show "n' < length ?c" "?c ! n' = b" by blast+
    next
      fix i assume nf: "cur' \<noteq> [b]" and i: "n \<le> i \<and> i \<le> idx \<and> i < length ?c"
      show "?c ! i \<noteq> b"
      proof (cases "i = n")
        case True
        with ne show ?thesis by simp
      next
        case False
        with i have "n + 1 \<le> i \<and> i \<le> idx \<and> i < length ?c" by simp
        with IH nf show ?thesis by blast
      qed
    next
      have "n + 1 \<le> idx" using lt by simp
      with IH show "pos fp' \<le> idx + 1" by blast
    qed
  qed
qed

lemma find_next_byte_found:
  assumes "pos fp = idx" "b \<in> set (content fp)"
  shows "\<exists>p fp'. find_next_byte max_offset fp [b] idx = (Inr (Some p), fp') \<and>
                p < length (content fp) \<and> content fp ! p = b"
proof -
  let ?c = "content fp"
  let ?cur0 = "fst (read1 fp)" and ?fp1 = "snd (read1 fp)"
  obtain cur1 n1 fp2 where s1: "scan_first ?fp1 [b] ?cur0 idx = (cur1, n1, fp2)"
    by (cases "scan_first ?fp1 [b] ?cur0 idx") auto
  note r1 = scan_first_result [OF refl read1_fst read1_pos s1, unfolded read1_keeps_content]
  from r1 have c2: "content fp2 = ?c" by blast
  show ?thesis
  proof (cases "cur1 = [b]")
    case True
    with r1 obtain k where "n1 = idx + k" "pos fp + k < length ?c" "?c ! (pos fp + k) = b"
      by blast
    then have "n1 < length ?c" "?c ! n1 = b" using assms(1) by simp_all
    moreover have "find_next_byte max_offset fp [b] idx = (Inr (Some n1), fp2)"
      using s1 True by (simp add: find_next_byte_def split_def)
    ultimately show ?thesis by blast
  next
    case False
    with r1 have e: "cur1 = []" and nf: "b \<notin> set (drop (pos fp) ?c)" by blast+
    let ?fp3 = "fp2\<lparr>pos := 0\<rparr>"
    let ?cur2 = "fst (read1 ?fp3)" and ?fp4 = "snd (read1 ?fp3)"
    have sk: "seek max_offset fp2 0 = Inr ?fp3" by (simp add: seek_def)
    obtain cur3 n3 fp5 where s2: "scan_wrap ?fp4 [b] idx ?cur2 0 = (cur3, n3, fp5)"
      by (cases "scan_wrap ?fp4 [b] idx ?cur2 0") auto
    have a2: "?cur2 = take 1 (drop 0 (content ?fp4))" using read1_fst [of ?fp3] by simp
    have a3: "pos ?fp4 = 0 + length ?cur2" using read1_pos [of ?fp3] by simp
    have c4: "content ?fp4 = ?c" using c2 by (simp add: read1_keeps_content)
    note r2 = scan_wrap_result [OF refl a2 a3 s2, unfolded c4]
    have found: "cur3 = [b]"
    proof (rule ccontr)
      assume "cur3 \<noteq> [b]"
      with r2 have low: "\<forall>i. 0 \<le> i \<and> i \<le> idx \<and> i < length ?c \<longrightarrow> ?c ! i \<noteq> b" by blast
      from assms(2) obtain i where i: "i < length ?c" "?c ! i = b"
        by (auto simp: in_set_conv_nth)
      with low have "\<not> i \<le> idx" by blast
      then have "idx \<le> i" by simp
      then have "drop idx ?c ! (i - idx) = ?c ! i" "i - idx < length (drop idx ?c)"
        using i(1) by simp_all
      then have "?c ! i \<in> set (drop idx ?c)" by (metis nth_mem)
      with nf i(2) assms(1) show False by simp
    qed
    have "find_next_byte max_offset fp [b] idx = (Inr (Some n3), fp5)"
      using s1 e sk s2 found by (simp add: find_next_byte_def split_def)
    moreover from r2 found have "n3 < length ?c" "?c ! n3 = b" by blast+
    ultimately show ?thesis by blast
  qed
qed

lemma find_next_byte_absent:
  assumes "b \<notin> set (content fp)"
  shows "\<exists>fp'. find_next_byte max_offset fp [b] idx =
                 (Inl (MapError ''Gaps in map file.''), fp') \<and>
              pos fp' \<le> idx + 1"
proof -
  let ?c = "content fp"
  let ?cur0 = "fst (read1 fp)" and ?fp1 = "snd (read1 fp)"
  obtain cur1 n1 fp2 where s1: "scan_first ?fp1 [b] ?cur0 idx = (cur1, n1, fp2)"
    by (cases "scan_first ?fp1 [b] ?cur0 idx") auto
  note r1 = scan_first_result [OF refl read1_fst read1_pos s1, unfolded read1_keeps_content]
  from r1 have c2: "content fp2 = ?c" by blast
  have e: "cur1 = []"
  proof (rule ccontr)
    assume "cur1 \<noteq> []"
    with r1 obtain k where "pos fp + k < length ?c" "?c ! (pos fp + k) = b" by blast
    then have "b \<in> set ?c" by (metis nth_mem)
    with assms show False by simp
  qed
  let ?fp3 = "fp2\<lparr>pos := 0\<rparr>"
  let ?cur2 = "fst (read1 ?fp3)" and ?fp4 = "snd (read1 ?fp3)"
  have sk: "seek max_offset fp2 0 = Inr ?fp3" by (simp add: seek_def)
  obtain cur3 n3 fp5 where s2: "scan_wrap ?fp4 [b] idx ?cur2 0 = (cur3, n3, fp5)"
    by (cases "scan_wrap ?fp4 [b] idx ?cur2 0") auto
  have a2: "?cur2 = take 1 (drop 0 (content ?fp4))" using read1_fst [of ?fp3] by simp
  have a3: "pos ?fp4 = 0 + length ?cur2" using read1_pos [of ?fp3] by simp
  have c4: "content ?fp4 = ?c" using c2 by (simp add: read1_keeps_content)
  note r2 = scan_wrap_result [OF refl a2 a3 s2, unfolded c4]
  have nf: "cur3 \<noteq> [b]"
  proof
    assume "cur3 = [b]"
    with r2 have "n3 < length ?c \<and> ?c ! n3 = b" by blast
    then have "b \<in> set ?c" by (metis nth_mem)
    with assms show False by simp
  qed
  have "find_next_byte max_offset fp [b] idx = (Inl (MapError ''Gaps in map file.''), fp5)"
    using s1 e sk s2 nf by (simp add: find_next_byte_def split_def)
  moreover from r2 have "pos fp5 \<le> idx + 1" by blast
  ultimately show ?thesis by blast
qed

lemma find_next_byte_examples:
  "find_next_byte max_offset \<lparr>content = [0x10, 0x20, 0x10], pos = 1\<rparr> [0x10] 1
     = (Inr (Some 2), \<lparr>content = [0x10, 0x20, 0x10], pos = 3\<rparr>)"
  "find_next_byte max_offset \<lparr>content = [0x10, 0x20, 0x10], pos = 2\<rparr> [0x20] 2
     = (Inr (Some 1), \<lparr>content = [0x10, 0x20, 0x10], pos = 2\<rparr>)"
  "find_next_byte max_offset \<lparr>content = [0x10, 0x20, 0x10], pos = 2\<rparr> [0x30] 2
     = (Inl (MapError ''Gaps in map file.''), \<lparr>content = [0x10, 0x20, 0x10], pos = 3\<rparr>)"
  by (simp_all add: find_next_byte_def read1_def seek_def scan_first.simps scan_wrap.simps
      Let_def)

section \<open>The claims\<close>

subsection \<open>C1: round trip in strict mode\<close>

text \<open>
  Claim C1. Let the Map \<open>m\<close> contain every byte value, and at least as many occurrences of
  each value as the plaintext \<open>B\<close> has. Then the in-memory encryption of \<open>B\<close> in strict mode
  runs to the end and writes a list \<open>P\<close> of positions, and the in-memory decryption of \<open>P\<close>
  against \<open>m\<close> writes exactly \<open>B\<close>, whatever the random generator draws.
\<close>

theorem roundtrip_strict:
  assumes "set m = UNIV" and "\<forall>v. count_list B v \<le> count_list m v"
  shows "\<exists>P. encrypt_in_memory rnd c True m B = (Finished, P) \<and>
             decrypt_in_memory m (map int P) = (Finished, B)"
proof -
  from init_succeeds [OF assms(1), of rnd c True] obtain em c'
    where init: "EncryptMap_init rnd c (open_rb m) True = (Inr em, c')" by blast
  have inv: "indexes_map m em" by (rule init_indexes_map [OF init])
  have str: "strict em" using init_strict [OF init] by simp
  have room: "\<forall>b. cursor em b + count_list B b \<le> count_list m b"
    using assms(2) by (simp add: init_cursor [OF init])
  from encrypt_loop_strict_enough [OF inv str room, of "[]"] obtain P em'
    where P: "encrypt_loop em B [] = (Finished, P, em')" "\<forall>p\<in>set P. p < length m"
      "map ((!) m) P = B" by auto
  have "encrypt_in_memory rnd c True m B = (Finished, P)"
    by (simp add: encrypt_in_memory_def init P(1))
  moreover have "decrypt_in_memory m (map int P) = (Finished, B)"
    using decrypt_in_memory_in_range [OF P(2)] P(3) by simp
  ultimately show ?thesis by blast
qed

theorem roundtrip_strict_witness:
  "set (all_bytes @ all_bytes) = UNIV \<and>
   (\<forall>v. count_list [0x41, 0x41, 0x10] v \<le> count_list (all_bytes @ all_bytes) v) \<and>
   (\<exists>P. encrypt_in_memory (\<lambda>n. n) 0 True (all_bytes @ all_bytes) [0x41, 0x41, 0x10] = (Finished, P) \<and>
        decrypt_in_memory (all_bytes @ all_bytes) (map int P) = (Finished, [0x41, 0x41, 0x10]))"
proof -
  have h1: "set (all_bytes @ all_bytes) = UNIV" by (rule all_bytes_twice)
  have h2: "\<forall>v. count_list [0x41, 0x41, 0x10] v \<le> count_list (all_bytes @ all_bytes) v"
    by (simp add: count_all_bytes)
  from roundtrip_strict [OF h1 h2, of "\<lambda>n. n" 0] h1 h2 show ?thesis by blast
qed

subsection \<open>C9: strict mode never returns a position twice\<close>

text \<open>
  Claim C9. On an object built in strict mode, the positions written by any run of
  \<open>encode\<close> calls, whether it reaches the end of the plaintext or stops at an exhausted
  list, are pairwise distinct.
\<close>

theorem strict_no_reuse:
  assumes "EncryptMap_init rnd c (open_rb m) True = (Inr em, c')"
    and "encrypt_loop em bs [] = (r, out, em')"
  shows "distinct out"
proof -
  have inv: "indexes_map m em" by (rule init_indexes_map [OF assms(1)])
  have str: "strict em" using init_strict [OF assms(1)] by simp
  from encrypt_loop_strict_distinct [OF inv str assms(2)] show ?thesis by auto
qed

theorem strict_no_reuse_witness:
  "\<exists>em c' out em'.
     EncryptMap_init (\<lambda>n. n) 0 (open_rb (all_bytes @ all_bytes)) True = (Inr em, c') \<and>
     encrypt_loop em [0x41, 0x10, 0x41] [] = (Finished, out, em') \<and>
     length out = 3 \<and> distinct out"
proof -
  from init_succeeds [OF all_bytes_twice, of "\<lambda>n. n" 0 True] obtain em c'
    where init: "EncryptMap_init (\<lambda>n. n) 0 (open_rb (all_bytes @ all_bytes)) True = (Inr em, c')"
    by blast
  have inv: "indexes_map (all_bytes @ all_bytes) em" by (rule init_indexes_map [OF init])
  have str: "strict em" using init_strict [OF init] by simp
  have room: "\<forall>b. cursor em b + count_list [0x41, 0x10, 0x41] b
                 \<le> count_list (all_bytes @ all_bytes) b"
    by (simp add: init_cursor [OF init] count_all_bytes)
  from encrypt_loop_strict_enough [OF inv str room, of "[]"] obtain out em'
    where run: "encrypt_loop em [0x41, 0x10, 0x41] [] = (Finished, out, em')"
      and len: "map ((!) (all_bytes @ all_bytes)) out = [0x41, 0x10, 0x41]" by auto
  from len have "length out = 3" by (metis length_map length_Cons list.size(3) numeral_3_eq_3)
  with init run strict_no_reuse [OF init run] show ?thesis by blast
qed

subsection \<open>C10: non-strict encode never fails after construction\<close>

text \<open>
  Claim C10. When the Map has no gaps, construction in non-strict mode succeeds, and then
  every sequence of \<open>encode\<close> calls, of any length and over any byte values, returns a
  position for each call. In every state so reached each byte value has a non-empty list,
  the next \<open>encode\<close> of any byte value returns a position too (so no \<open>KeyError\<close> and no
  second \<open>StopIteration\<close>), and when that value's cursor is past the end the position
  returned is the first entry of its list.
\<close>

theorem nonstrict_encode_total:
  assumes "set m = UNIV"
  shows "\<exists>em c'. EncryptMap_init rnd c (open_rb m) False = (Inr em, c') \<and>
           (\<forall>bs. \<exists>out em'. encrypt_loop em bs [] = (Finished, out, em') \<and>
                  length out = length bs \<and>
                  (\<forall>b. \<exists>t. map_of (emap em') b = Some t \<and> tlist t \<noteq> [] \<and>
                       (\<exists>v em''. encode em' b = (Inr v, em'') \<and>
                          (length (tlist t) \<le> index t \<longrightarrow> v = tlist t ! 0))))"
proof -
  from init_succeeds [OF assms, of rnd c False] obtain em c'
    where init: "EncryptMap_init rnd c (open_rb m) False = (Inr em, c')" by blast
  have inv: "indexes_map m em" by (rule init_indexes_map [OF init])
  have str: "\<not> strict em" using init_strict [OF init] by simp
  have "\<exists>out em'. encrypt_loop em bs [] = (Finished, out, em') \<and>
                  length out = length bs \<and>
                  (\<forall>b. \<exists>t. map_of (emap em') b = Some t \<and> tlist t \<noteq> [] \<and>
                       (\<exists>v em''. encode em' b = (Inr v, em'') \<and>
                          (length (tlist t) \<le> index t \<longrightarrow> v = tlist t ! 0)))" for bs
  proof -
    from encrypt_loop_reuse_total [OF inv str assms, of bs "[]"] obtain out em'
      where run: "encrypt_loop em bs [] = (Finished, out, em')" "length out = length bs"
        "indexes_map m em'" "\<not> strict em'" by auto
    have "\<exists>t. map_of (emap em') b = Some t \<and> tlist t \<noteq> [] \<and>
               (\<exists>v em''. encode em' b = (Inr v, em'') \<and>
                  (length (tlist t) \<le> index t \<longrightarrow> v = tlist t ! 0))" for b
    proof -
      from indexes_map_entry [OF run(3), of b] obtain t
        where t: "map_of (emap em') b = Some t" "mset (tlist t) = mset (positions m b)" by blast
      have ne: "tlist t \<noteq> []"
      proof
        assume "tlist t = []"
        with t(2) have "positions m b = []" by simp
        then show False using assms by (simp add: positions_empty_iff)
      qed
      show ?thesis
      proof (cases "index t < length (tlist t)")
        case True
        from encode_fresh [OF t(1) True] t(1) ne True show ?thesis by auto
      next
        case False
        then have "length (tlist t) \<le> index t" by simp
        from encode_exhausted_reuse [OF t(1) this run(4) ne] t(1) ne show ?thesis by auto
      qed
    qed
    with run(1,2) show ?thesis by blast
  qed
  with init show ?thesis by blast
qed

theorem nonstrict_encode_total_witness:
  "set all_bytes = UNIV \<and>
   (\<exists>em c'. EncryptMap_init (\<lambda>n. n) 0 (open_rb all_bytes) False = (Inr em, c') \<and>
      (\<exists>out em'. encrypt_loop em [0x41, 0x41, 0x41] [] = (Finished, out, em') \<and> length out = 3))"
proof -
  from nonstrict_encode_total [OF set_all_bytes, of "\<lambda>n. n" 0] obtain em c'
    where init: "EncryptMap_init (\<lambda>n. n) 0 (open_rb all_bytes) False = (Inr em, c')"
      and run: "\<forall>bs. \<exists>out em'. encrypt_loop em bs [] = (Finished, out, em') \<and>
                  length out = length bs \<and>
                  (\<forall>b. \<exists>t. map_of (emap em') b = Some t \<and> tlist t \<noteq> [] \<and>
                       (\<exists>v em''. encode em' b = (Inr v, em'') \<and>
                          (length (tlist t) \<le> index t \<longrightarrow> v = tlist t ! 0)))"
    by blast
  from run [rule_format, of "[0x41, 0x41, 0x41]"] obtain out em'
    where "encrypt_loop em [0x41, 0x41, 0x41] [] = (Finished, out, em')" "length out = 3"
    by auto
  with init set_all_bytes show ?thesis by blast
qed

subsection \<open>C7: construction fails exactly on a Map with gaps\<close>

text \<open>
  Claim C7. When the Map lacks some byte value, \<open>__init__\<close> raises
  \<open>MapError("Gaps in map file.")\<close> and no random draw has been taken, so the shuffle
  was not run. When the Map holds every byte value, \<open>__init__\<close> returns an object in which
  every byte value has a non-empty list of positions.
\<close>

theorem construction_gaps:
  "(set m \<noteq> UNIV \<longrightarrow>
      EncryptMap_init rnd c (open_rb m) s = (Inl (MapError ''Gaps in map file.''), c)) \<and>
   (set m = UNIV \<longrightarrow>
      (\<exists>em c'. EncryptMap_init rnd c (open_rb m) s = (Inr em, c') \<and>
         (\<forall>b. \<exists>t. map_of (emap em) b = Some t \<and> tlist t \<noteq> [])))"
proof (intro conjI impI)
  assume "set m \<noteq> UNIV"
  then show "EncryptMap_init rnd c (open_rb m) s = (Inl (MapError ''Gaps in map file.''), c)"
    by (simp add: init_unfold)
next
  assume "set m = UNIV"
  from init_succeeds [OF this, of rnd c s] obtain em c'
    where init: "EncryptMap_init rnd c (open_rb m) s = (Inr em, c')" by blast
  have "\<forall>b. \<exists>t. map_of (emap em) b = Some t \<and> tlist t \<noteq> []"
    using init_entry_nonempty [OF init] by blast
  with init show "\<exists>em c'. EncryptMap_init rnd c (open_rb m) s = (Inr em, c') \<and>
         (\<forall>b. \<exists>t. map_of (emap em) b = Some t \<and> tlist t \<noteq> [])" by blast
qed

theorem construction_gaps_witness:
  "set [0x10, 0x20 :: byte] \<noteq> UNIV \<and>
   EncryptMap_init (\<lambda>n. n) 7 (open_rb [0x10, 0x20]) True = (Inl (MapError ''Gaps in map file.''), 7) \<and>
   set all_bytes = UNIV \<and>
   (\<exists>em c'. EncryptMap_init (\<lambda>n. n) 7 (open_rb all_bytes) True = (Inr em, c') \<and>
      (\<forall>b. \<exists>t. map_of (emap em) b = Some t \<and> tlist t \<noteq> []))"
proof -
  have gap: "set [0x10, 0x20 :: byte] \<noteq> UNIV"
  proof
    assume "set [0x10, 0x20 :: byte] = UNIV"
    then have "(0 :: byte) \<in> set [0x10, 0x20]" by simp
    then show False by simp
  qed
  from construction_gaps [of "[0x10, 0x20]" "\<lambda>n. n" 7 True] gap
    construction_gaps [of all_bytes "\<lambda>n. n" 7 True] set_all_bytes
  show ?thesis by blast
qed

subsection \<open>C8: the shuffle keeps the positions of every byte value\<close>

text \<open>
  Claim C8. For every object and every byte value with an entry, \<open>shuffle\<close> leaves an
  entry whose list has the same elements with the same multiplicities: sorted, the
  shuffled list equals the sorted original, the length and the cursor are unchanged. For
  an object built from an accepted Map, the sorted shuffled list of a byte value equals
  the sorted list the scan collected, which is the ascending list of that value's
  positions in the Map.
\<close>

theorem shuffle_preserves_positions:
  "(map_of (emap em) b = Some t \<longrightarrow>
      (\<exists>t'. map_of (emap (fst (shuffle rnd c em))) b = Some t' \<and>
         sort (tlist t') = sort (tlist t) \<and> mset (tlist t') = mset (tlist t) \<and>
         length (tlist t') = length (tlist t) \<and> index t' = index t)) \<and>
   (EncryptMap_init rnd c (open_rb m) s = (Inr em', c') \<longrightarrow>
      (\<exists>t0 t1. map_of (init_scan m 0 []) b = Some t0 \<and> map_of (emap em') b = Some t1 \<and>
         sort (tlist t1) = sort (tlist t0) \<and>
         sort (tlist t1) = [p \<leftarrow> [0..<length m]. m ! p = b]))"
proof (intro conjI impI)
  assume "map_of (emap em) b = Some t"
  from shuffle_dict_Some [OF this, of rnd c] obtain x
    where x: "map_of (fst (shuffle_dict rnd c (emap em))) b = Some (t\<lparr>tlist := x\<rparr>)"
      "mset x = mset (tlist t)" by blast
  have "map_of (emap (fst (shuffle rnd c em))) b = Some (t\<lparr>tlist := x\<rparr>)"
    using x(1) by (simp add: shuffle_def split_def Let_def)
  moreover have "sort x = sort (tlist t)" by (rule sort_cong_mset [OF x(2)])
  moreover have "length x = length (tlist t)" by (rule mset_eq_length [OF x(2)])
  ultimately show "\<exists>t'. map_of (emap (fst (shuffle rnd c em))) b = Some t' \<and>
         sort (tlist t') = sort (tlist t) \<and> mset (tlist t') = mset (tlist t) \<and>
         length (tlist t') = length (tlist t) \<and> index t' = index t"
    using x(2) by simp
next
  assume init: "EncryptMap_init rnd c (open_rb m) s = (Inr em', c')"
  then have all: "set m = UNIV" by (auto simp: init_unfold split: if_splits)
  then have t0: "map_of (init_scan m 0 []) b = Some \<lparr>index = 0, tlist = positions m b\<rparr>"
    by (simp add: map_of_init_scan_empty)
  from init_entry [OF init, of b] obtain x
    where x: "map_of (emap em') b = Some \<lparr>index = 0, tlist = x\<rparr>" "mset x = mset (positions m b)"
    by blast
  have srt: "sort x = sort (positions m b)" by (rule sort_cong_mset [OF x(2)])
  have "sort (positions m b) = positions m b"
    by (simp add: positions_filter sorted_sort_id sorted_filter [where f = "\<lambda>x. x", simplified])
  with srt have "sort x = [p \<leftarrow> [0..<length m]. m ! p = b]" by (simp add: positions_filter)
  with t0 x(1) srt
  show "\<exists>t0 t1. map_of (init_scan m 0 []) b = Some t0 \<and> map_of (emap em') b = Some t1 \<and>
         sort (tlist t1) = sort (tlist t0) \<and>
         sort (tlist t1) = [p \<leftarrow> [0..<length m]. m ! p = b]" by simp
qed

theorem shuffle_preserves_positions_witness:
  "map_of (emap three_positions) 0x41 = Some \<lparr>index = 0, tlist = [0, 1, 2]\<rparr> \<and>
   map_of (emap (fst (shuffle (\<lambda>n. n) 0 three_positions))) 0x41
     = Some \<lparr>index = 0, tlist = [2, 1, 0]\<rparr> \<and>
   sort [2, 1, 0 :: nat] = sort [0, 1, 2] \<and>
   (\<exists>em' c'. EncryptMap_init (\<lambda>n. n) 0 (open_rb (all_bytes @ all_bytes)) True = (Inr em', c') \<and>
      (\<exists>t1. map_of (emap em') 0x41 = Some t1 \<and>
         sort (tlist t1) = [p \<leftarrow> [0..<length (all_bytes @ all_bytes)]. (all_bytes @ all_bytes) ! p = 0x41]))"
proof -
  have h: "map_of (emap three_positions) 0x41 = Some \<lparr>index = 0, tlist = [0, 1, 2]\<rparr>"
    by (simp add: three_positions_def)
  have e: "map_of (emap (fst (shuffle (\<lambda>n. n) 0 three_positions))) 0x41
     = Some \<lparr>index = 0, tlist = [2, 1, 0]\<rparr>"
    by code_simp
  from init_succeeds [OF all_bytes_twice, of "\<lambda>n. n" 0 True] obtain em' c'
    where init: "EncryptMap_init (\<lambda>n. n) 0 (open_rb (all_bytes @ all_bytes)) True = (Inr em', c')"
    by blast
  from shuffle_preserves_positions
    [of three_positions "0x41" "\<lparr>index = 0, tlist = [0, 1, 2]\<rparr>" "\<lambda>n. n" 0
        "all_bytes @ all_bytes" True em' c'] h e init
  show ?thesis by auto
qed

subsection \<open>C4: strict mode fails when a list is used up\<close>

text \<open>
  Claim C4. On a Map with every byte value and exactly one \<open>0x41\<close>, strict encoding of the
  plaintext \<open>AA\<close> returns a position of \<open>0x41\<close> for the first byte and raises
  \<open>MapError("Map file not complex enough.")\<close>, the code's form of MapTooSmall, for the
  second; the main program then exits with status 1. In general a strict \<open>encode\<close> of a
  byte value whose cursor is past the last entry raises that error and returns no
  position.
\<close>

theorem strict_exhaustion:
  "(set m = UNIV \<and> count_list m 0x41 = 1 \<longrightarrow>
      (\<exists>em c' p em1.
         EncryptMap_init rnd c (open_rb m) True = (Inr em, c') \<and>
         encode em 0x41 = (Inr p, em1) \<and> m ! p = 0x41 \<and>
         encode em1 0x41 = (Inl (MapError ''Map file not complex enough.''), em1) \<and>
         encrypt_in_memory rnd c True m [0x41, 0x41] = (Exited 1, [p]))) \<and>
   (strict em \<and> map_of (emap em) b = Some t \<and> length (tlist t) \<le> index t \<longrightarrow>
      encode em b = (Inl (MapError ''Map file not complex enough.''), em))"
proof (intro conjI impI)
  assume "strict em \<and> map_of (emap em) b = Some t \<and> length (tlist t) \<le> index t"
  then show "encode em b = (Inl (MapError ''Map file not complex enough.''), em)"
    using encode_exhausted_strict by blast
next
  assume a: "set m = UNIV \<and> count_list m 0x41 = 1"
  from init_succeeds [of m rnd c True] a obtain em c'
    where init: "EncryptMap_init rnd c (open_rb m) True = (Inr em, c')" by blast
  from single_occurrence_entry [OF init, of "0x41"] a obtain p
    where p: "map_of (emap em) 0x41 = Some \<lparr>index = 0, tlist = [p]\<rparr>" "m ! p = 0x41" by blast
  let ?em1 = "store_tl em 0x41 \<lparr>index = 1, tlist = [p]\<rparr>"
  have str: "strict em" using init_strict [OF init] by simp
  have e1: "encode em 0x41 = (Inr p, ?em1)" by (rule encode_single_first [OF p(1)])
  have e2: "encode ?em1 0x41 = (Inl (MapError ''Map file not complex enough.''), ?em1)"
    by (rule encode_single_second_strict [OF str])
  have run: "encrypt_in_memory rnd c True m [0x41, 0x41] = (Exited 1, [p])"
    using e1 e2 by (simp add: encrypt_in_memory_def init)
  show "\<exists>em c' p em1.
         EncryptMap_init rnd c (open_rb m) True = (Inr em, c') \<and>
         encode em 0x41 = (Inr p, em1) \<and> m ! p = 0x41 \<and>
         encode em1 0x41 = (Inl (MapError ''Map file not complex enough.''), em1) \<and>
         encrypt_in_memory rnd c True m [0x41, 0x41] = (Exited 1, [p])"
    using init e1 p(2) e2 run by blast
qed

theorem strict_exhaustion_witness:
  "set all_bytes = UNIV \<and> count_list all_bytes 0x41 = 1 \<and>
   (\<exists>p. all_bytes ! p = 0x41 \<and>
        encrypt_in_memory (\<lambda>n. n) 0 True all_bytes [0x41, 0x41] = (Exited 1, [p])) \<and>
   strict used_up \<and> map_of (emap used_up) 0x41 = Some \<lparr>index = 1, tlist = [0]\<rparr> \<and>
   length (tlist \<lparr>index = 1, tlist = [0]\<rparr>) \<le> index \<lparr>index = 1, tlist = [0 :: nat]\<rparr> \<and>
   encode used_up 0x41 = (Inl (MapError ''Map file not complex enough.''), used_up)"
proof -
  have h: "strict used_up \<and> map_of (emap used_up) 0x41 = Some \<lparr>index = 1, tlist = [0]\<rparr> \<and>
    length (tlist \<lparr>index = 1, tlist = [0]\<rparr>) \<le> index \<lparr>index = 1, tlist = [0 :: nat]\<rparr>"
    by (simp add: used_up_def)
  from strict_exhaustion [of all_bytes "\<lambda>n. n" 0 used_up "0x41" "\<lparr>index = 1, tlist = [0]\<rparr>"]
    set_all_bytes count_all_bytes [of "0x41"] h
  show ?thesis by blast
qed

subsection \<open>C6: non-strict mode starts the list again\<close>

text \<open>
  Claim C6. On a Map with every byte value and exactly one \<open>0x41\<close>, non-strict encoding
  of the plaintext \<open>AA\<close> runs to the end and writes the same position of \<open>0x41\<close> twice.
  In general a non-strict \<open>encode\<close> of a byte value whose cursor is past the last entry
  of its (non-empty) list returns the first entry and leaves the cursor at 1, the list
  unchanged.
\<close>

theorem nonstrict_reuse:
  "(set m = UNIV \<and> count_list m 0x41 = 1 \<longrightarrow>
      (\<exists>p. p < length m \<and> m ! p = 0x41 \<and>
           encrypt_in_memory rnd c False m [0x41, 0x41] = (Finished, [p, p]))) \<and>
   (\<not> strict em \<and> map_of (emap em) b = Some t \<and> length (tlist t) \<le> index t \<and> tlist t \<noteq> [] \<longrightarrow>
      encode em b = (Inr (tlist t ! 0), store_tl em b (t\<lparr>index := 1\<rparr>)))"
proof (intro conjI impI)
  assume "\<not> strict em \<and> map_of (emap em) b = Some t \<and> length (tlist t) \<le> index t \<and> tlist t \<noteq> []"
  then show "encode em b = (Inr (tlist t ! 0), store_tl em b (t\<lparr>index := 1\<rparr>))"
    using encode_exhausted_reuse by blast
next
  assume a: "set m = UNIV \<and> count_list m 0x41 = 1"
  from init_succeeds [of m rnd c False] a obtain em c'
    where init: "EncryptMap_init rnd c (open_rb m) False = (Inr em, c')" by blast
  from single_occurrence_entry [OF init, of "0x41"] a obtain p
    where p: "map_of (emap em) 0x41 = Some \<lparr>index = 0, tlist = [p]\<rparr>" "p < length m" "m ! p = 0x41"
    by blast
  let ?em1 = "store_tl em 0x41 \<lparr>index = 1, tlist = [p]\<rparr>"
  have str: "\<not> strict em" using init_strict [OF init] by simp
  have e1: "encode em 0x41 = (Inr p, ?em1)" by (rule encode_single_first [OF p(1)])
  have e2: "encode ?em1 0x41 = (Inr p, store_tl ?em1 0x41 \<lparr>index = 1, tlist = [p]\<rparr>)"
    by (rule encode_single_second_reuse [OF str])
  have "encrypt_in_memory rnd c False m [0x41, 0x41] = (Finished, [p, p])"
    using e1 e2 by (simp add: encrypt_in_memory_def init)
  with p(2,3) show "\<exists>p. p < length m \<and> m ! p = 0x41 \<and>
           encrypt_in_memory rnd c False m [0x41, 0x41] = (Finished, [p, p])" by blast
qed

theorem nonstrict_reuse_witness:
  "set all_bytes = UNIV \<and> count_list all_bytes 0x41 = 1 \<and>
   (\<exists>p. p < length all_bytes \<and> all_bytes ! p = 0x41 \<and>
        encrypt_in_memory (\<lambda>n. n) 0 False all_bytes [0x41, 0x41] = (Finished, [p, p])) \<and>
   \<not> strict used_up_reuse \<and>
   map_of (emap used_up_reuse) 0x41 = Some \<lparr>index = 2, tlist = [2, 0]\<rparr> \<and>
   encode used_up_reuse 0x41 =
     (Inr 2, store_tl used_up_reuse 0x41 \<lparr>index = 1, tlist = [2, 0]\<rparr>)"
proof -
  have h: "\<not> strict used_up_reuse \<and>
    map_of (emap used_up_reuse) 0x41 = Some \<lparr>index = 2, tlist = [2, 0]\<rparr> \<and>
    length (tlist \<lparr>index = 2, tlist = [2, 0]\<rparr>) \<le> index \<lparr>index = 2, tlist = [2, 0 :: nat]\<rparr> \<and>
    tlist \<lparr>index = 2, tlist = [2, 0 :: nat]\<rparr> \<noteq> []"
    by (simp add: used_up_reuse_def)
  from nonstrict_reuse [of all_bytes "\<lambda>n. n" 0 used_up_reuse "0x41" "\<lparr>index = 2, tlist = [2, 0]\<rparr>"]
    set_all_bytes count_all_bytes [of "0x41"] h
  show ?thesis by auto
qed

subsection \<open>C5: what a strict abort leaves in the output\<close>

text \<open>
  Claim C5, as the code has it. Let the Map have no gaps, let the plaintext be \<open>B1\<close>
  followed by a byte \<open>b\<close> and anything after it, where the Map has enough occurrences of
  every byte value for \<open>B1\<close> and \<open>B1\<close> uses up those of \<open>b\<close>. Then the strict in-memory
  encryption exits with status 1 at \<open>b\<close>, and the lines written before stay in the
  output: exactly one position for each byte of \<open>B1\<close>, pairwise distinct, decoding to
  \<open>B1\<close>. The script has no step that removes or truncates its output.
\<close>

theorem strict_abort_keeps_output:
  assumes "set m = UNIV"
    and "\<forall>v. count_list B1 v \<le> count_list m v"
    and "count_list B1 b = count_list m b"
  shows "\<exists>out. encrypt_in_memory rnd c True m (B1 @ b # B2) = (Exited 1, out) \<and>
           length out = length B1 \<and> distinct out \<and>
           decrypt_in_memory m (map int out) = (Finished, B1)"
proof -
  from init_succeeds [OF assms(1), of rnd c True] obtain em c'
    where init: "EncryptMap_init rnd c (open_rb m) True = (Inr em, c')" by blast
  have inv: "indexes_map m em" by (rule init_indexes_map [OF init])
  have str: "strict em" using init_strict [OF init] by simp
  have room: "\<forall>v. cursor em v + count_list B1 v \<le> count_list m v"
    using assms(2) by (simp add: init_cursor [OF init])
  from encrypt_loop_strict_state [OF inv str room, of "[]"] obtain out em1
    where run: "encrypt_loop em B1 [] = (Finished, out, em1)" "length out = length B1"
      "\<forall>p\<in>set out. p < length m" "map ((!) m) out = B1"
      "indexes_map m em1" "strict em1" "\<forall>v. cursor em1 v = cursor em v + count_list B1 v"
    by auto
  have "cursor em1 b = count_list m b"
    using run(7) assms(3) by (simp add: init_cursor [OF init])
  from encode_used_up_strict [OF run(5) run(6) this]
  have stop: "encode em1 b = (Inl (MapError ''Map file not complex enough.''), em1)" .
  have "encrypt_loop em (B1 @ b # B2) [] = encrypt_loop em1 (b # B2) out"
    by (rule encrypt_loop_append [OF run(1)])
  also have "\<dots> = (Exited 1, out, em1)" using stop by simp
  finally have whole: "encrypt_loop em (B1 @ b # B2) [] = (Exited 1, out, em1)" .
  have 1: "encrypt_in_memory rnd c True m (B1 @ b # B2) = (Exited 1, out)"
    by (simp add: encrypt_in_memory_def init whole)
  have 2: "distinct out"
    using encrypt_loop_strict_distinct [OF inv str run(1)] by auto
  have 3: "decrypt_in_memory m (map int out) = (Finished, B1)"
    using decrypt_in_memory_in_range [OF run(3)] run(4) by simp
  show ?thesis by (rule exI [of _ out], intro conjI 1 run(2) 2 3)
qed

theorem strict_abort_keeps_output_witness:
  "set all_bytes = UNIV \<and>
   (\<forall>v. count_list [0x42, 0x41] v \<le> count_list all_bytes v) \<and>
   count_list [0x42, 0x41 :: byte] 0x41 = count_list all_bytes 0x41 \<and>
   (\<exists>out. encrypt_in_memory (\<lambda>n. n) 0 True all_bytes ([0x42, 0x41] @ 0x41 # [0x43])
             = (Exited 1, out) \<and>
          length out = length [0x42, 0x41 :: byte] \<and> distinct out \<and>
          decrypt_in_memory all_bytes (map int out) = (Finished, [0x42, 0x41]))"
proof -
  have h2: "\<forall>v. count_list [0x42, 0x41] v \<le> count_list all_bytes v"
    by (simp add: count_all_bytes)
  have h3: "count_list [0x42, 0x41 :: byte] 0x41 = count_list all_bytes 0x41"
    by (simp add: count_all_bytes)
  from strict_abort_keeps_output [OF set_all_bytes h2 h3, of "\<lambda>n. n" 0 "[0x43]"]
    set_all_bytes h2 h3
  show ?thesis by blast
qed

text \<open>
  The claim as stated, that the output holds no line of the aborted run, fails: on the Map
  of the 256 byte values in order, the plaintext \<open>AA\<close> leaves the line \<open>65\<close> behind.
\<close>

theorem strict_abort_output_counterexample:
  "encrypt_in_memory (\<lambda>n. 0) 0 True all_bytes [0x41, 0x41] = (Exited 1, [65])"
  by (rule all_bytes_AA_strict)

subsection \<open>C2: decoding a position outside the Map\<close>

text \<open>
  Claim C2, as the code has it. Let the position \<open>p\<close> be at or past the end of the Map.
  The in-memory decoder raises nothing and writes nothing for \<open>p\<close> (the slice is empty)
  and goes on with the next line. The streaming decoder does the same when the seek to
  \<open>p\<close> is accepted, that is when \<open>p\<close> is below \<open>2^63\<close> and not above the largest offset
  of the file system; otherwise the seek raises \<open>ValueError\<close> (from \<open>2^63\<close> on) or
  \<open>OSError\<close>, nothing catches it, and the run stops with the bytes of the lines before
  \<open>p\<close> written. Neither decoder ever writes a byte for \<open>p\<close>.
\<close>

theorem decode_out_of_range_skipped:
  assumes "int (length m) \<le> p"
  shows "decrypt_in_memory m [p] = (Finished, []) \<and>
         decrypt_in_memory m (xs @ p # ys) = decrypt_in_memory m (xs @ ys) \<and>
         (p \<le> int max_offset \<and> p < 2 ^ 63 \<longrightarrow>
            decrypt_streaming max_offset m [p] = (Finished, []) \<and>
            (decrypt_streaming max_offset m xs = (Finished, out) \<longrightarrow>
               decrypt_streaming max_offset m (xs @ p # ys) =
                 decrypt_streaming_loop max_offset (open_rb m) ys out)) \<and>
         (\<not> (p \<le> int max_offset \<and> p < 2 ^ 63) \<longrightarrow>
            decrypt_streaming max_offset m [p] =
              (Uncaught (if 2 ^ 63 \<le> p then ValueError else OSError), []) \<and>
            (decrypt_streaming max_offset m xs = (Finished, out) \<longrightarrow>
               decrypt_streaming max_offset m (xs @ p # ys) =
                 (Uncaught (if 2 ^ 63 \<le> p then ValueError else OSError), out)))"
proof -
  have p0: "0 \<le> p" using assms by simp
  have s: "slice m p (p + 1) = []" by (rule slice_past_end [OF assms])
  have 1: "decrypt_in_memory m (xs @ p # ys) = decrypt_in_memory m (xs @ ys)" for xs ys
    by (simp add: decrypt_in_memory_def read_all_open_rb decrypt_in_memory_loop_concat s)
  have 0: "decrypt_in_memory m [p] = (Finished, [])"
    using 1 [of "[]" "[]"] by (simp add: decrypt_in_memory_def)
  have c: "int (length (content (open_rb m))) \<le> p" using assms by (simp add: open_rb_def)
  have app: "decrypt_streaming max_offset m (xs @ p # ys) =
      decrypt_streaming_loop max_offset (open_rb m) (p # ys) out"
    if "decrypt_streaming max_offset m xs = (Finished, out)"
    using that unfolding decrypt_streaming_def by (rule decrypt_streaming_loop_append)
  have ok: "decrypt_streaming max_offset m [p] = (Finished, []) \<and>
            (decrypt_streaming max_offset m xs = (Finished, out) \<longrightarrow>
               decrypt_streaming max_offset m (xs @ p # ys) =
                 decrypt_streaming_loop max_offset (open_rb m) ys out)"
    if a: "p \<le> int max_offset \<and> p < 2 ^ 63"
  proof -
    have skip: "decrypt_streaming_loop max_offset (open_rb m) (p # zs) o1 =
        decrypt_streaming_loop max_offset (open_rb m) zs o1" for zs o1
      using a by (intro decrypt_streaming_loop_skip_one [OF c]) simp_all
    have "decrypt_streaming max_offset m [p] = (Finished, [])"
      unfolding decrypt_streaming_def by (subst skip) simp
    then show ?thesis using app skip by simp
  qed
  have bad: "decrypt_streaming max_offset m [p] =
              (Uncaught (if 2 ^ 63 \<le> p then ValueError else OSError), []) \<and>
            (decrypt_streaming max_offset m xs = (Finished, out) \<longrightarrow>
               decrypt_streaming max_offset m (xs @ p # ys) =
                 (Uncaught (if 2 ^ 63 \<le> p then ValueError else OSError), out))"
    if a: "\<not> (p \<le> int max_offset \<and> p < 2 ^ 63)"
  proof -
    have stop: "decrypt_streaming_loop max_offset (open_rb m) (p # zs) o1 =
        (Uncaught (if 2 ^ 63 \<le> p then ValueError else OSError), o1)" for zs o1
      using seek_refuses [OF p0 a, of "open_rb m"] by simp
    have "decrypt_streaming max_offset m [p] =
        (Uncaught (if 2 ^ 63 \<le> p then ValueError else OSError), [])"
      unfolding decrypt_streaming_def by (rule stop)
    then show ?thesis using app stop by simp
  qed
  from 0 1 ok bad show ?thesis by blast
qed

theorem decode_out_of_range_skipped_witness:
  "int (length [0x10, 0x20 :: byte]) \<le> 2 \<and>
   decrypt_in_memory [0x10, 0x20] [2] = (Finished, []) \<and>
   decrypt_in_memory [0x10, 0x20] ([1] @ 2 # [0]) = decrypt_in_memory [0x10, 0x20] ([1] @ [0]) \<and>
   (2 :: int) \<le> int 2147483647 \<and> (2 :: int) < 2 ^ 63 \<and>
   decrypt_streaming 2147483647 [0x10, 0x20] [2] = (Finished, []) \<and>
   decrypt_streaming 2147483647 [0x10, 0x20] [1] = (Finished, [0x20]) \<and>
   decrypt_streaming 2147483647 [0x10, 0x20] ([1] @ 2 # [0]) = (Finished, [0x20, 0x10]) \<and>
   int (length [0x10, 0x20 :: byte]) \<le> 2 ^ 63 \<and>
   \<not> ((2 :: int) ^ 63 \<le> int 2147483647 \<and> (2 :: int) ^ 63 < 2 ^ 63) \<and>
   decrypt_streaming 2147483647 [0x10, 0x20] ([1] @ 2 ^ 63 # [0]) = (Uncaught ValueError, [0x20]) \<and>
   int (length [0x10, 0x20 :: byte]) \<le> 2 ^ 62 \<and>
   \<not> ((2 :: int) ^ 62 \<le> int 2147483647 \<and> (2 :: int) ^ 62 < 2 ^ 63) \<and>
   decrypt_streaming 2147483647 [0x10, 0x20] ([1] @ 2 ^ 62 # [0]) = (Uncaught OSError, [0x20])"
proof -
  have h: "int (length [0x10, 0x20 :: byte]) \<le> 2" by simp
  have h63: "int (length [0x10, 0x20 :: byte]) \<le> 2 ^ 63" by simp
  have h62: "int (length [0x10, 0x20 :: byte]) \<le> 2 ^ 62" by simp
  have one: "decrypt_streaming 2147483647 [0x10, 0x20] [1] = (Finished, [0x20])"
    by (simp add: decrypt_streaming_def open_rb_def seek_def read1_def Let_def)
  have rest: "decrypt_streaming_loop 2147483647 (open_rb [0x10, 0x20]) [0] [0x20]
      = (Finished, [0x20, 0x10])"
    by (simp add: open_rb_def seek_def read1_def Let_def)
  have r: "(2 :: int) \<le> int 2147483647 \<and> (2 :: int) < 2 ^ 63" by simp
  have n63: "\<not> ((2 :: int) ^ 63 \<le> int 2147483647 \<and> (2 :: int) ^ 63 < 2 ^ 63)" by simp
  have n62: "\<not> ((2 :: int) ^ 62 \<le> int 2147483647 \<and> (2 :: int) ^ 62 < 2 ^ 63)" by simp
  note t2 = decode_out_of_range_skipped [OF h, of "[1]" "[0]" 2147483647 "[0x20]"]
  note t63 = decode_out_of_range_skipped [OF h63, of "[1]" "[0]" 2147483647 "[0x20]"]
  note t62 = decode_out_of_range_skipped [OF h62, of "[1]" "[0]" 2147483647 "[0x20]"]
  have a1: "decrypt_in_memory [0x10, 0x20] [2] = (Finished, [])" using t2 by blast
  have a2: "decrypt_in_memory [0x10, 0x20] ([1] @ 2 # [0]) = decrypt_in_memory [0x10, 0x20] ([1] @ [0])"
    using t2 by blast
  have a3: "decrypt_streaming 2147483647 [0x10, 0x20] [2] = (Finished, [])"
    using t2 r by blast
  have "decrypt_streaming 2147483647 [0x10, 0x20] ([1] @ 2 # [0]) =
      decrypt_streaming_loop 2147483647 (open_rb [0x10, 0x20]) [0] [0x20]"
    using t2 r one by blast
  then have a4: "decrypt_streaming 2147483647 [0x10, 0x20] ([1] @ 2 # [0]) = (Finished, [0x20, 0x10])"
    using rest by (rule trans)
  have "decrypt_streaming 2147483647 [0x10, 0x20] ([1] @ 2 ^ 63 # [0]) =
      (Uncaught (if (2 :: int) ^ 63 \<le> 2 ^ 63 then ValueError else OSError), [0x20])"
    using t63 n63 one by blast
  then have b: "decrypt_streaming 2147483647 [0x10, 0x20] ([1] @ 2 ^ 63 # [0])
      = (Uncaught ValueError, [0x20])" by simp
  have "decrypt_streaming 2147483647 [0x10, 0x20] ([1] @ 2 ^ 62 # [0]) =
      (Uncaught (if (2 :: int) ^ 63 \<le> 2 ^ 62 then ValueError else OSError), [0x20])"
    using t62 n62 one by blast
  then have c: "decrypt_streaming 2147483647 [0x10, 0x20] ([1] @ 2 ^ 62 # [0])
      = (Uncaught OSError, [0x20])" by simp
  show ?thesis by (intro conjI h a1 a2 a3 one a4 h63 n63 b h62 n62 c r [THEN conjunct1] r [THEN conjunct2])
qed

text \<open>
  The claim as stated, that such a position makes both decoders fail, does not hold: with
  the position 2 on a Map of two bytes both decoders finish and write the bytes of the
  other two lines.
\<close>

theorem decode_out_of_range_counterexample:
  "decrypt_in_memory [0x10, 0x20] [1, 2, 0] = (Finished, [0x20, 0x10]) \<and>
   decrypt_streaming 2147483647 [0x10, 0x20] [1, 2, 0] = (Finished, [0x20, 0x10])"
  by (simp add: decrypt_in_memory_def decrypt_streaming_def open_rb_def read_all_def
      seek_def read1_def slice_def slice_bound_def Let_def)

subsection \<open>C3: find_next_byte\<close>

text \<open>
  Claim C3 says that \<open>find_next_byte\<close> returns a position at which the Map holds the
  target byte. The code does so when the stream stands at \<open>index\<close> (lemma
  \<open>find_next_byte_found\<close>, and the two examples of the claim in
  \<open>find_next_byte_examples\<close>), and it raises the Gaps error after one wrap when the target
  is absent (\<open>find_next_byte_absent\<close>). But it reads from wherever the stream stands
  and counts from \<open>index\<close>, and the streaming loop of the main program, its only caller,
  passes the stream one byte past the last match together with the position of that
  match. On the Map \<open>0x10 0x20\<close> and the plaintext \<open>0x10 0x20\<close> the second call gets the
  stream at offset 1, the target \<open>0x20\<close> and \<open>index\<close> 0, and returns 0, where the Map
  holds \<open>0x10\<close>: the ciphertext is \<open>0, 0\<close> and decodes to \<open>0x10 0x10\<close>.
\<close>

theorem find_next_byte_drift:
  "find_next_byte max_offset (open_rb [0x10, 0x20]) [0x10] 0
     = (Inr (Some 0), \<lparr>content = [0x10, 0x20], pos = 1\<rparr>) \<and>
   find_next_byte max_offset \<lparr>content = [0x10, 0x20], pos = 1\<rparr> [0x20] 0
     = (Inr (Some 0), \<lparr>content = [0x10, 0x20], pos = 2\<rparr>) \<and>
   [0x10, 0x20 :: byte] ! 0 \<noteq> 0x20 \<and>
   encrypt_streaming max_offset [0x10, 0x20] [0x10, 0x20] = (Finished, [0, 0]) \<and>
   decrypt_in_memory [0x10, 0x20] (map int [0, 0]) = (Finished, [0x10, 0x10])"
  by (simp add: find_next_byte_def encrypt_streaming_def open_rb_def read1_def read_all_def
      scan_first.simps decrypt_in_memory_def slice_def slice_bound_def Let_def)

end
